theory Spec2Isabelle
  imports Complex_Main "HOL-Library.Word" "HOL-Library.Log_Nat"
begin

unbundle bit_operations_syntax

section \<open>Shared data model\<close>

text \<open>
  The printing pipeline of \<^verbatim>\<open>escpos-printer.js\<close> (and its copy in \<^verbatim>\<open>script.js\<close>):
  grayscale, Floyd-Steinberg dithering, bit packing, the GS v 0 raster header, and the
  transports. A \<^verbatim>\<open>Uint8Array\<close> is a list of 8-bit words; storing a number into it keeps
  the number modulo 256, which is what \<open>word_of_int\<close> does.
\<close>

type_synonym u8 = "8 word"

text \<open>
  The source throws plain \<^verbatim>\<open>Error\<close> objects that differ in their message only. The
  constructors are named after the spec's taxonomy:
  \<^item> \<open>InvalidInput\<close>: \<^verbatim>\<open>'Captured canvas invalid (zero width/height). Cannot print.'\<close>,
    thrown by \<^verbatim>\<open>printPaperToThermal\<close> in \<^verbatim>\<open>script.js\<close>;
  \<^item> \<open>DeviceUnsupported\<close>: \<^verbatim>\<open>'Could not find an OUT endpoint on the selected USB device.'\<close>;
  \<^item> \<open>TransportFailure\<close>: the \<^verbatim>\<open>error\<close> event a WebSocket promise is rejected with;
  \<^item> \<open>DomInvalidState\<close>: the \<^verbatim>\<open>InvalidStateError\<close> that the canvas method \<^verbatim>\<open>drawImage\<close>
    throws for a source canvas of width or height zero.
\<close>

datatype error = InvalidInput | DeviceUnsupported | TransportFailure | DomInvalidState

section \<open>Framer: \<^verbatim>\<open>buildGsV0Raster\<close>\<close>

text \<open>
  JavaScript's bitwise operators first convert their operands with ToInt32: an integral
  number is taken modulo \<open>2^32\<close> into the range \<open>-2^31 ..< 2^31\<close>. On \<open>int\<close>,
  \<open>AND\<close> is two's complement conjunction and \<open>drop_bit\<close> is the sign-propagating
  shift \<^verbatim>\<open>>>\<close>.
\<close>

definition toInt32 :: "int \<Rightarrow> int" where
  "toInt32 n = (n + 2 ^ 31) mod 2 ^ 32 - 2 ^ 31"

definition js_and :: "int \<Rightarrow> int \<Rightarrow> int" where
  "js_and a b = toInt32 a AND toInt32 b"

definition js_shr :: "int \<Rightarrow> nat \<Rightarrow> int" where
  "js_shr a k = drop_bit (k mod 32) (toInt32 a)"

text \<open>
  \<^verbatim>\<open>
  function buildGsV0Raster(bytesPerRow, height, bitmapData, mode = 0) {
    // GS v 0: 1D 76 30 m xL xH yL yH [data]
    const xL = bytesPerRow & 0xFF;
    const xH = (bytesPerRow >> 8) & 0xFF;
    const yL = height & 0xFF;
    const yH = (height >> 8) & 0xFF;
    const header = new Uint8Array([0x1D, 0x76, 0x30, mode, xL, xH, yL, yH]);
    const out = new Uint8Array(header.length + bitmapData.length);
    out.set(header, 0);
    out.set(bitmapData, header.length);
    return out;
  }
  \<close>
  The function has no \<^verbatim>\<open>throw\<close> and no check of its arguments: it returns on every
  input, so the model's result is always \<open>Inr\<close>.
\<close>

definition buildGsV0Raster :: "int \<Rightarrow> int \<Rightarrow> u8 list \<Rightarrow> int \<Rightarrow> error + u8 list" where
  "buildGsV0Raster bytesPerRow height bitmapData mode =
     (let xL = js_and bytesPerRow 0xFF;
          xH = js_and (js_shr bytesPerRow 8) 0xFF;
          yL = js_and height 0xFF;
          yH = js_and (js_shr height 8) 0xFF;
          header = map word_of_int [0x1D, 0x76, 0x30, mode, xL, xH, yL, yH]
      in Inr (header @ bitmapData))"

section \<open>Packer: \<^verbatim>\<open>packBitsMonochrome\<close>\<close>

text \<open>
  \<^verbatim>\<open>
  function packBitsMonochrome(bitArray, width, height) {
    const bytesPerRow = Math.ceil(width / 8);
    const out = new Uint8Array(bytesPerRow * height);
    for (let y = 0; y < height; y++) {
      for (let bx = 0; bx < bytesPerRow; bx++) {
        let byte = 0x00;
        for (let bit = 0; bit < 8; bit++) {
          const x = bx * 8 + bit;
          if (x >= width) continue;
          const pix = bitArray[y * width + x]; // 1 = black
          if (pix) byte |= (0x80 >> bit); // MSB = leftmost pixel
        }
        out[y * bytesPerRow + bx] = byte;
      }
    }
    return { data: out, bytesPerRow };
  }
  \<close>
  \<open>width\<close> and \<open>height\<close> are canvas dimensions, natural numbers; \<open>bitArray\<close> is
  the \<^verbatim>\<open>Uint8Array\<close> the dithering returns. The three loops are three recursive
  functions. A write into a typed array at an index out of range is ignored, as
  \<open>xs[i := v]\<close> is. The function has no \<^verbatim>\<open>throw\<close>: it rejects no input.
\<close>

text \<open>Reading a typed array: an index out of range gives \<^verbatim>\<open>undefined\<close>.\<close>

definition typed_get :: "'a list \<Rightarrow> nat \<Rightarrow> 'a option" where
  "typed_get xs i = (if i < length xs then Some (xs ! i) else None)"

text \<open>\<^verbatim>\<open>if (pix)\<close>: \<^verbatim>\<open>undefined\<close> and 0 are falsy, every other byte is truthy.\<close>

definition truthy :: "u8 option \<Rightarrow> bool" where
  "truthy pix = (case pix of None \<Rightarrow> False | Some v \<Rightarrow> v \<noteq> 0)"

definition js_or :: "int \<Rightarrow> int \<Rightarrow> int" where
  "js_or a b = toInt32 a OR toInt32 b"

definition js_ceil_div8 :: "nat \<Rightarrow> nat" where
  "js_ceil_div8 width = nat \<lceil>rat_of_nat width / 8\<rceil>"

record packed_raster =
  data :: "u8 list"
  bytesPerRow :: nat

function packBits_bit_loop :: "u8 list \<Rightarrow> nat \<Rightarrow> nat \<Rightarrow> nat \<Rightarrow> nat \<Rightarrow> int \<Rightarrow> int" where
  "packBits_bit_loop bitArray width y bx bitIdx byte =
     (if bitIdx < 8 then
        (let x = bx * 8 + bitIdx in
         if x \<ge> width then packBits_bit_loop bitArray width y bx (bitIdx + 1) byte
         else (let pix = typed_get bitArray (y * width + x) in
               packBits_bit_loop bitArray width y bx (bitIdx + 1)
                 (if truthy pix then js_or byte (js_shr 0x80 bitIdx) else byte)))
      else byte)"
  by pat_completeness auto
termination
  by (relation "measure (\<lambda>(bitArray, width, y, bx, bitIdx, byte). 8 - bitIdx)") auto

function packBits_bx_loop :: "u8 list \<Rightarrow> nat \<Rightarrow> nat \<Rightarrow> nat \<Rightarrow> nat \<Rightarrow> u8 list \<Rightarrow> u8 list" where
  "packBits_bx_loop bitArray width bpr y bx out =
     (if bx < bpr then
        (let byte = packBits_bit_loop bitArray width y bx 0 0x00 in
         packBits_bx_loop bitArray width bpr y (bx + 1) (out[y * bpr + bx := word_of_int byte]))
      else out)"
  by pat_completeness auto
termination
  by (relation "measure (\<lambda>(bitArray, width, bpr, y, bx, out). bpr - bx)") auto

function packBits_y_loop :: "u8 list \<Rightarrow> nat \<Rightarrow> nat \<Rightarrow> nat \<Rightarrow> nat \<Rightarrow> u8 list \<Rightarrow> u8 list" where
  "packBits_y_loop bitArray width height bpr y out =
     (if y < height then
        packBits_y_loop bitArray width height bpr (y + 1) (packBits_bx_loop bitArray width bpr y 0 out)
      else out)"
  by pat_completeness auto
termination
  by (relation "measure (\<lambda>(bitArray, width, height, bpr, y, out). height - y)") auto

definition packBitsMonochrome :: "u8 list \<Rightarrow> nat \<Rightarrow> nat \<Rightarrow> packed_raster" where
  "packBitsMonochrome bitArray width height =
     (let bpr = js_ceil_div8 width;
          out = replicate (bpr * height) 0
      in \<lparr>data = packBits_y_loop bitArray width height bpr 0 out, bytesPerRow = bpr\<rparr>)"

text \<open>
  Two notions for the statements: the byte the inner loop computes for byte column
  \<open>bx\<close> of row \<open>y\<close>, and the test the loop body applies to column \<open>x\<close> of row \<open>y\<close>.
\<close>

definition packed_byte :: "u8 list \<Rightarrow> nat \<Rightarrow> nat \<Rightarrow> nat \<Rightarrow> u8" where
  "packed_byte bitArray width y bx = word_of_int (packBits_bit_loop bitArray width y bx 0 0)"

definition marked :: "u8 list \<Rightarrow> nat \<Rightarrow> nat \<Rightarrow> nat \<Rightarrow> bool" where
  "marked bitArray width y x = (x < width \<and> truthy (typed_get bitArray (y * width + x)))"

section \<open>USB endpoint discovery: \<^verbatim>\<open>openUsbDevice\<close>\<close>

text \<open>
  The part of \<^verbatim>\<open>openUsbDevice\<close> that chooses the endpoint, after the browser has
  opened the device and selected a configuration (requesting, opening and claiming the
  device are calls into WebUSB and are not modelled):
  \<^verbatim>\<open>
    let ifaceNumber = null;
    let endpointNumber = null;
    for (const cfg of device.configuration.interfaces) {
      for (const alt of cfg.alternates) {
        if (!alt.endpoints) continue;
        for (const ep of alt.endpoints) {
          if (ep.direction === 'out') {
            ifaceNumber = cfg.interfaceNumber;
            endpointNumber = ep.endpointNumber;
            break;
          }
        }
        if (endpointNumber !== null) break;
      }
      if (endpointNumber !== null) break;
    }
    if (ifaceNumber === null) {
      throw new Error('Could not find an OUT endpoint on the selected USB device.');
    }
  \<close>
  The two variables are the state the loops pass on; \<^verbatim>\<open>null\<close> is \<open>None\<close>. An
  alternate whose \<^verbatim>\<open>endpoints\<close> is missing has \<open>endpoints = None\<close>. Each \<^verbatim>\<open>break\<close> ends
  the recursion of its loop.
\<close>

datatype usb_direction = In | Out

record usb_endpoint =
  direction :: usb_direction
  endpointNumber :: nat

record usb_alternate =
  endpoints :: "usb_endpoint list option"

record usb_interface =
  interfaceNumber :: nat
  alternates :: "usb_alternate list"

record usb_selection =
  sel_ifaceNumber :: "nat option"
  sel_endpointNumber :: "nat option"

fun openUsbDevice_ep_loop :: "usb_interface \<Rightarrow> usb_endpoint list \<Rightarrow> usb_selection \<Rightarrow> usb_selection" where
  "openUsbDevice_ep_loop cfg [] s = s"
| "openUsbDevice_ep_loop cfg (ep # eps) s =
     (if direction ep = Out
      then s\<lparr>sel_ifaceNumber := Some (interfaceNumber cfg), sel_endpointNumber := Some (endpointNumber ep)\<rparr>
      else openUsbDevice_ep_loop cfg eps s)"

fun openUsbDevice_alt_loop :: "usb_interface \<Rightarrow> usb_alternate list \<Rightarrow> usb_selection \<Rightarrow> usb_selection" where
  "openUsbDevice_alt_loop cfg [] s = s"
| "openUsbDevice_alt_loop cfg (alt # alts) s =
     (case endpoints alt of
        None \<Rightarrow> openUsbDevice_alt_loop cfg alts s
      | Some eps \<Rightarrow>
          (let s' = openUsbDevice_ep_loop cfg eps s in
           if sel_endpointNumber s' \<noteq> None then s' else openUsbDevice_alt_loop cfg alts s'))"

fun openUsbDevice_cfg_loop :: "usb_interface list \<Rightarrow> usb_selection \<Rightarrow> usb_selection" where
  "openUsbDevice_cfg_loop [] s = s"
| "openUsbDevice_cfg_loop (cfg # cfgs) s =
     (let s' = openUsbDevice_alt_loop cfg (alternates cfg) s in
      if sel_endpointNumber s' \<noteq> None then s' else openUsbDevice_cfg_loop cfgs s')"

definition openUsbDevice_discover :: "usb_interface list \<Rightarrow> error + usb_selection" where
  "openUsbDevice_discover interfaces =
     (let s = openUsbDevice_cfg_loop interfaces \<lparr>sel_ifaceNumber = None, sel_endpointNumber = None\<rparr> in
      if sel_ifaceNumber s = None then Inl DeviceUnsupported else Inr s)"

text \<open>
  The spec's words, for comparison: the endpoints in declared order (interfaces, then
  alternates, then endpoints), each with its owning interface, and the first of them whose
  direction is OUT.
\<close>

definition endpoints_in_order :: "usb_interface list \<Rightarrow> (usb_interface \<times> usb_endpoint) list" where
  "endpoints_in_order interfaces =
     concat (map (\<lambda>cfg.
       concat (map (\<lambda>alt. map (Pair cfg) (case endpoints alt of None \<Rightarrow> [] | Some eps \<Rightarrow> eps))
                   (alternates cfg)))
       interfaces)"

definition first_out_endpoint :: "usb_interface list \<Rightarrow> (usb_interface \<times> usb_endpoint) option" where
  "first_out_endpoint interfaces = find (\<lambda>(cfg, ep). direction ep = Out) (endpoints_in_order interfaces)"

definition selected :: "usb_interface \<times> usb_endpoint \<Rightarrow> usb_selection" where
  "selected p = \<lparr>sel_ifaceNumber = Some (interfaceNumber (fst p)), sel_endpointNumber = Some (endpointNumber (snd p))\<rparr>"

section \<open>Relay socket transport: \<^verbatim>\<open>sendViaWebSocket\<close>\<close>

text \<open>
  \<^verbatim>\<open>
  async function sendViaWebSocket(wsUrl, data) {
    return new Promise((resolve, reject) => {
      const ws = new WebSocket(wsUrl);
      ws.binaryType = 'arraybuffer';
      ws.addEventListener('open', () => {
        ws.send(data);
      });
      ws.addEventListener('close', () => resolve());
      ws.addEventListener('error', (e) => reject(e));
      // If server sends back any message, resolve as success.
      ws.addEventListener('message', () => { /* no-op */ });
      // Fallback: resolve after short timeout if still open
      setTimeout(() => {
        if (ws.readyState === WebSocket.OPEN) {
          ws.close();
          resolve();
        }
      }, 2000);
    });
  }
  \<close>
  (the timer is 1500 ms in \<^verbatim>\<open>script.js\<close>). The function is a set of event handlers, so the
  model is a step function over the events the browser delivers, in the order it delivers
  them; the firing of the timer is the event \<open>EvTimeout\<close>, and time itself is not
  modelled. The state is what the handlers read and write: the socket's \<^verbatim>\<open>readyState\<close>
  (set to \<open>OPEN\<close> by the browser before the \<^verbatim>\<open>open\<close> handlers run, to \<open>CLOSED\<close> before
  the \<^verbatim>\<open>close\<close> handlers run, and to \<open>CLOSING\<close> by \<^verbatim>\<open>ws.close()\<close>), the promise, and the
  buffers handed to \<^verbatim>\<open>ws.send\<close>. A promise is settled once: \<^verbatim>\<open>resolve\<close> and \<^verbatim>\<open>reject\<close>
  on a settled promise do nothing. The rejection value, the \<^verbatim>\<open>error\<close> event, is the
  spec's \<open>TransportFailure\<close>.
\<close>

datatype ready_state = CONNECTING | OPEN | CLOSING | CLOSED

datatype promise_state = Pending | Resolved | Rejected error

datatype ws_event = EvOpen | EvClose | EvError | EvMessage | EvTimeout

record ws_state =
  readyState :: ready_state
  promise :: promise_state
  sent :: "u8 list list"

definition resolve :: "ws_state \<Rightarrow> ws_state" where
  "resolve s = (if promise s = Pending then s\<lparr>promise := Resolved\<rparr> else s)"

definition reject :: "error \<Rightarrow> ws_state \<Rightarrow> ws_state" where
  "reject e s = (if promise s = Pending then s\<lparr>promise := Rejected e\<rparr> else s)"

fun sendViaWebSocket_step :: "u8 list \<Rightarrow> ws_state \<Rightarrow> ws_event \<Rightarrow> ws_state" where
  "sendViaWebSocket_step buf s EvOpen = (s\<lparr>readyState := OPEN, sent := sent s @ [buf]\<rparr>)"
| "sendViaWebSocket_step buf s EvClose = resolve (s\<lparr>readyState := CLOSED\<rparr>)"
| "sendViaWebSocket_step buf s EvError = reject TransportFailure s"
| "sendViaWebSocket_step buf s EvMessage = s"
| "sendViaWebSocket_step buf s EvTimeout =
     (if readyState s = OPEN then resolve (s\<lparr>readyState := CLOSING\<rparr>) else s)"

definition ws_init :: ws_state where
  "ws_init = \<lparr>readyState = CONNECTING, promise = Pending, sent = []\<rparr>"

definition sendViaWebSocket :: "u8 list \<Rightarrow> ws_event list \<Rightarrow> ws_state" where
  "sendViaWebSocket buf events = foldl (sendViaWebSocket_step buf) ws_init events"

section \<open>JavaScript numbers\<close>

text \<open>
  A JavaScript number is an IEEE 754 double: a finite value, which is a rational number,
  or NaN, or an infinity. The sign of zero is not modelled (\<open>Num 0\<close> stands for both
  zeros); the only operation on numbers that tells the zeros apart, a division by zero,
  has the non-negative dimension of a canvas as its divisor wherever this code divides.
\<close>

datatype jsnum = Num rat | NaN | PosInf | NegInf

text \<open>
  Rounding to nearest, ties to even. \<open>ilog2 x\<close> is the binary exponent of \<open>x\<close>, the
  integer \<open>e\<close> with \<open>2^e \<le> |x| < 2^(e+1)\<close>. A format has a precision \<open>p\<close> (bits of the
  significand), a least exponent \<open>emin\<close> of its normal numbers (below it the spacing of
  the subnormal numbers stays \<open>2^(emin - p + 1)\<close>) and a greatest exponent \<open>emax\<close>; a
  value that rounds beyond it becomes an infinity. Doubles have \<open>p = 53\<close>, exponents
  \<open>-1022 .. 1023\<close>; the elements of a \<^verbatim>\<open>Float32Array\<close> have \<open>p = 24\<close>, exponents
  \<open>-126 .. 127\<close>.
\<close>

definition ilog2 :: "rat \<Rightarrow> int" where
  "ilog2 x = (let (n, d) = quotient_of \<bar>x\<bar>; e = bitlen n - bitlen d
              in if 2 powi e \<le> \<bar>x\<bar> then e else e - 1)"

definition round_half_even :: "rat \<Rightarrow> int" where
  "round_half_even x =
     (let f = \<lfloor>x\<rfloor>; r = x - of_int f
      in if r < 1 / 2 then f else if 1 / 2 < r then f + 1 else if even f then f else f + 1)"

definition fl_round :: "nat \<Rightarrow> int \<Rightarrow> rat \<Rightarrow> rat" where
  "fl_round p emin x =
     (if x = 0 then 0
      else (let e = max (ilog2 x) emin; q = 2 powi (e - int p + 1)
            in of_int (round_half_even (x / q)) * q))"

definition to_format :: "nat \<Rightarrow> int \<Rightarrow> int \<Rightarrow> rat \<Rightarrow> jsnum" where
  "to_format p emin emax x =
     (let r = fl_round p emin x
      in if r = 0 \<or> ilog2 r \<le> emax then Num r else if 0 < r then PosInf else NegInf)"

definition double :: "rat \<Rightarrow> jsnum" where
  "double = to_format 53 (- 1022) 1023"

definition float32 :: "rat \<Rightarrow> jsnum" where
  "float32 = to_format 24 (- 126) 127"

text \<open>
  The arithmetic of the source: each operator gives the exact result rounded to a double.
  \<open>js_lt\<close> is \<^verbatim>\<open><\<close>, \<open>Math_round\<close> rounds to the nearest integer with ties towards
  \<open>+\<infinity>\<close>, \<open>fround\<close> is the conversion a \<^verbatim>\<open>Float32Array\<close> applies to a stored value,
  and \<open>js_truthy\<close> is the truth value of a number in \<^verbatim>\<open>a || b\<close>.
\<close>

fun js_neg :: "jsnum \<Rightarrow> jsnum" where
  "js_neg (Num a) = Num (- a)"
| "js_neg NaN = NaN"
| "js_neg PosInf = NegInf"
| "js_neg NegInf = PosInf"

fun js_add :: "jsnum \<Rightarrow> jsnum \<Rightarrow> jsnum" where
  "js_add (Num a) (Num b) = double (a + b)"
| "js_add NaN b = NaN"
| "js_add a NaN = NaN"
| "js_add PosInf NegInf = NaN"
| "js_add NegInf PosInf = NaN"
| "js_add PosInf b = PosInf"
| "js_add a PosInf = PosInf"
| "js_add NegInf b = NegInf"
| "js_add a NegInf = NegInf"

definition js_sub :: "jsnum \<Rightarrow> jsnum \<Rightarrow> jsnum" where
  "js_sub a b = js_add a (js_neg b)"

fun js_sign :: "jsnum \<Rightarrow> int" where
  "js_sign (Num a) = (if a < 0 then - 1 else if a = 0 then 0 else 1)"
| "js_sign NaN = 0"
| "js_sign PosInf = 1"
| "js_sign NegInf = - 1"

definition js_inf :: "int \<Rightarrow> jsnum" where
  "js_inf s = (if 0 < s then PosInf else NegInf)"

fun js_mul :: "jsnum \<Rightarrow> jsnum \<Rightarrow> jsnum" where
  "js_mul (Num a) (Num b) = double (a * b)"
| "js_mul NaN b = NaN"
| "js_mul a NaN = NaN"
| "js_mul a b = (if js_sign a * js_sign b = 0 then NaN else js_inf (js_sign a * js_sign b))"

fun js_div :: "jsnum \<Rightarrow> jsnum \<Rightarrow> jsnum" where
  "js_div (Num a) (Num b) =
     (if b = 0 then (if a = 0 then NaN else js_inf (js_sign (Num a))) else double (a / b))"
| "js_div NaN b = NaN"
| "js_div a NaN = NaN"
| "js_div (Num a) b = Num 0"
| "js_div a (Num b) = js_inf (js_sign a * (if b < 0 then - 1 else 1))"
| "js_div a b = NaN"

fun js_lt :: "jsnum \<Rightarrow> jsnum \<Rightarrow> bool" where
  "js_lt (Num a) (Num b) = (a < b)"
| "js_lt NaN b = False"
| "js_lt a NaN = False"
| "js_lt NegInf NegInf = False"
| "js_lt NegInf b = True"
| "js_lt PosInf b = False"
| "js_lt a PosInf = True"
| "js_lt a NegInf = False"

fun Math_round :: "jsnum \<Rightarrow> jsnum" where
  "Math_round (Num a) = Num (rat_of_int \<lfloor>a + 1 / 2\<rfloor>)"
| "Math_round a = a"

definition Math_max :: "jsnum \<Rightarrow> jsnum \<Rightarrow> jsnum" where
  "Math_max a b = (if a = NaN \<or> b = NaN then NaN else if js_lt a b then b else a)"

fun fround :: "jsnum \<Rightarrow> jsnum" where
  "fround (Num a) = float32 a"
| "fround a = a"

definition js_truthy :: "jsnum \<Rightarrow> bool" where
  "js_truthy a = (a \<noteq> Num 0 \<and> a \<noteq> NaN)"

text \<open>\<open>approx v x e\<close>: the number \<open>v\<close> is finite and within \<open>e\<close> of the rational \<open>x\<close>.\<close>

definition approx :: "jsnum \<Rightarrow> rat \<Rightarrow> rat \<Rightarrow> bool" where
  "approx v x e = (\<exists>r. v = Num r \<and> \<bar>r - x\<bar> \<le> e)"

section \<open>Rasterizer: the resize step of the print flow\<close>

text \<open>
  \<^verbatim>\<open>
  function resizeCanvasNearest(srcCanvas, targetWidth, targetHeight) {
    const dest = document.createElement('canvas');
    dest.width = targetWidth;
    dest.height = targetHeight;
    const ctx = dest.getContext('2d');
    ctx.imageSmoothingEnabled = false;
    ctx.drawImage(srcCanvas, 0, 0, srcCanvas.width, srcCanvas.height, 0, 0, targetWidth, targetHeight);
    return dest;
  }
  \<close>
  and its caller, \<^verbatim>\<open>printElementToPrinter\<close> in \<^verbatim>\<open>escpos-printer.js\<close>:
  \<^verbatim>\<open>
    const widthDots = opts.widthDots || 384;
    const baseCanvas = await captureElementToCanvas(element, 1);
    const targetWidth = widthDots;
    const scale = targetWidth / baseCanvas.width;
    const targetHeight = Math.max(1, Math.round(baseCanvas.height * scale));
    const canvas = resizeCanvasNearest(baseCanvas, targetWidth, targetHeight);
  \<close>
  \<^verbatim>\<open>printPaperToThermal\<close> in \<^verbatim>\<open>script.js\<close> has the same lines and, before them,
  \<^verbatim>\<open>
    if (!baseCanvas || !baseCanvas.width || !baseCanvas.height) {
      throw new Error('Captured canvas invalid (zero width/height). Cannot print.');
    }
  \<close>
  A canvas is its two dimensions and its RGBA bytes. What the canvas of the browser does
  is taken from the HTML standard: a dimension is an \<^verbatim>\<open>unsigned long\<close>, so the number
  assigned to it is truncated towards zero and taken modulo \<open>2^32\<close> (NaN and the infinities
  give 0), and a result above \<open>2^31 - 1\<close> is replaced by the default (300 for the width, 150
  for the height); \<^verbatim>\<open>drawImage\<close> throws an \<^verbatim>\<open>InvalidStateError\<close> when the source canvas has
  width or height zero, and is otherwise assumed to succeed. The pixels it paints are the
  browser's business: the parameter \<open>drawImage\<close> gives them.
\<close>

record canvas =
  cv_width :: nat
  cv_height :: nat
  cv_pixels :: "u8 list"

definition canvas_dimension :: "nat \<Rightarrow> jsnum \<Rightarrow> nat" where
  "canvas_dimension dflt v =
     (case v of
        Num a \<Rightarrow>
          (let n = (if 0 \<le> a then \<lfloor>a\<rfloor> else \<lceil>a\<rceil>) mod 2 ^ 32
           in if 2147483647 < n then dflt else nat n)
      | _ \<Rightarrow> 0)"

definition resizeCanvasNearest ::
  "(canvas \<Rightarrow> nat \<Rightarrow> nat \<Rightarrow> u8 list) \<Rightarrow> canvas \<Rightarrow> jsnum \<Rightarrow> jsnum \<Rightarrow> error + canvas" where
  "resizeCanvasNearest drawImage srcCanvas targetWidth targetHeight =
     (let w = canvas_dimension 300 targetWidth;
          h = canvas_dimension 150 targetHeight
      in if cv_width srcCanvas = 0 \<or> cv_height srcCanvas = 0 then Inl DomInvalidState
         else Inr \<lparr>cv_width = w, cv_height = h, cv_pixels = drawImage srcCanvas w h\<rparr>)"

text \<open>
  \<^verbatim>\<open>opts.widthDots || 384\<close>: a missing option, 0 and NaN give 384. \<open>targetHeight_of\<close> is
  \<^verbatim>\<open>Math.max(1, Math.round(baseCanvas.height * scale))\<close> with
  \<^verbatim>\<open>scale = targetWidth / baseCanvas.width\<close>.
\<close>

definition widthDots_or_384 :: "jsnum option \<Rightarrow> jsnum" where
  "widthDots_or_384 opt = (case opt of None \<Rightarrow> Num 384 | Some v \<Rightarrow> if js_truthy v then v else Num 384)"

definition targetHeight_of :: "canvas \<Rightarrow> jsnum \<Rightarrow> jsnum" where
  "targetHeight_of baseCanvas targetWidth =
     (let scale = js_div targetWidth (Num (of_nat (cv_width baseCanvas)))
      in Math_max (Num 1) (Math_round (js_mul (Num (of_nat (cv_height baseCanvas))) scale)))"

definition printElementToPrinter_resize ::
  "(canvas \<Rightarrow> nat \<Rightarrow> nat \<Rightarrow> u8 list) \<Rightarrow> jsnum option \<Rightarrow> canvas \<Rightarrow> error + canvas" where
  "printElementToPrinter_resize drawImage widthDots baseCanvas =
     (let targetWidth = widthDots_or_384 widthDots;
          targetHeight = targetHeight_of baseCanvas targetWidth
      in resizeCanvasNearest drawImage baseCanvas targetWidth targetHeight)"

definition printPaperToThermal_resize ::
  "(canvas \<Rightarrow> nat \<Rightarrow> nat \<Rightarrow> u8 list) \<Rightarrow> jsnum option \<Rightarrow> canvas \<Rightarrow> error + canvas" where
  "printPaperToThermal_resize drawImage widthDots baseCanvas =
     (if cv_width baseCanvas = 0 \<or> cv_height baseCanvas = 0 then Inl InvalidInput
      else (let targetWidth = widthDots_or_384 widthDots;
                targetHeight = targetHeight_of baseCanvas targetWidth
            in resizeCanvasNearest drawImage baseCanvas targetWidth targetHeight))"

text \<open>A stand-in for \<open>drawImage\<close> in the examples: it paints nothing.\<close>

definition no_pixels :: "canvas \<Rightarrow> nat \<Rightarrow> nat \<Rightarrow> u8 list" where
  "no_pixels srcCanvas w h = []"

section \<open>Luminance Converter: \<^verbatim>\<open>grayscaleImageData\<close>\<close>

text \<open>
  \<^verbatim>\<open>
  function grayscaleImageData(imgData) {
    const data = imgData.data;
    const width = imgData.width;
    const height = imgData.height;
    const gray = new Float32Array(width * height);
    for (let i = 0, p = 0; i < data.length; i += 4, p++) {
      const r = data[i], g = data[i + 1], b = data[i + 2], a = data[i + 3];
      const alpha = a / 255;
      const rr = r * alpha + 255 * (1 - alpha);
      const gg = g * alpha + 255 * (1 - alpha);
      const bb = b * alpha + 255 * (1 - alpha);
      gray[p] = 0.299 * rr + 0.587 * gg + 0.114 * bb;
    }
    return { gray, width, height };
  }
  \<close>
  \<^verbatim>\<open>imgData.data\<close> is a byte array (a \<^verbatim>\<open>Uint8ClampedArray\<close>); an element read out of range
  is \<^verbatim>\<open>undefined\<close>, which is NaN in arithmetic. A numeric literal is the double nearest
  to it. The result array is a \<^verbatim>\<open>Float32Array\<close>: a stored value is rounded to single
  precision, and a store out of range is ignored.
\<close>

record image_data =
  img_data :: "u8 list"
  img_width :: nat
  img_height :: nat

record gray_image =
  gray_values :: "jsnum list"
  gray_width :: nat
  gray_height :: nat

definition sample :: "u8 list \<Rightarrow> nat \<Rightarrow> jsnum" where
  "sample xs i = (case typed_get xs i of None \<Rightarrow> NaN | Some v \<Rightarrow> Num (rat_of_int (uint v)))"

function grayscaleImageData_loop :: "u8 list \<Rightarrow> nat \<Rightarrow> nat \<Rightarrow> jsnum list \<Rightarrow> jsnum list" where
  "grayscaleImageData_loop dat i p gray =
     (if i < length dat then
        (let r = sample dat i; g = sample dat (i + 1); b = sample dat (i + 2); a = sample dat (i + 3);
             alpha = js_div a (Num 255);
             rr = js_add (js_mul r alpha) (js_mul (Num 255) (js_sub (Num 1) alpha));
             gg = js_add (js_mul g alpha) (js_mul (Num 255) (js_sub (Num 1) alpha));
             bb = js_add (js_mul b alpha) (js_mul (Num 255) (js_sub (Num 1) alpha));
             v = js_add (js_add (js_mul (double (299 / 1000)) rr) (js_mul (double (587 / 1000)) gg))
                        (js_mul (double (114 / 1000)) bb)
         in grayscaleImageData_loop dat (i + 4) (p + 1) (gray[p := fround v]))
      else gray)"
  by pat_completeness auto
termination
  by (relation "measure (\<lambda>(dat, i, p, gray). length dat - i)") auto

definition grayscaleImageData :: "image_data \<Rightarrow> gray_image" where
  "grayscaleImageData imgData =
     (let dat = img_data imgData; width = img_width imgData; height = img_height imgData;
          gray = replicate (width * height) (Num 0)
      in \<lparr>gray_values = grayscaleImageData_loop dat 0 0 gray, gray_width = width, gray_height = height\<rparr>)"

text \<open>
  The spec's words, for comparison: compositing a channel over opaque white, the weighted
  sum, and the two applied to the four samples of a pixel.
\<close>

definition composite_over_white :: "jsnum \<Rightarrow> jsnum \<Rightarrow> jsnum" where
  "composite_over_white channel alpha =
     js_add (js_mul channel alpha) (js_mul (Num 255) (js_sub (Num 1) alpha))"

definition luminance :: "jsnum \<Rightarrow> jsnum \<Rightarrow> jsnum \<Rightarrow> jsnum" where
  "luminance R G B =
     js_add (js_add (js_mul (double (299 / 1000)) R) (js_mul (double (587 / 1000)) G))
            (js_mul (double (114 / 1000)) B)"

definition pixel_gray :: "jsnum \<Rightarrow> jsnum \<Rightarrow> jsnum \<Rightarrow> jsnum \<Rightarrow> jsnum" where
  "pixel_gray R G B A =
     (let alpha = js_div A (Num 255)
      in fround (luminance (composite_over_white R alpha) (composite_over_white G alpha)
                           (composite_over_white B alpha)))"

definition byte_num :: "u8 \<Rightarrow> jsnum" where
  "byte_num v = Num (rat_of_int (uint v))"

definition luminance_of_pixel :: "u8 \<Rightarrow> u8 \<Rightarrow> u8 \<Rightarrow> u8 \<Rightarrow> jsnum" where
  "luminance_of_pixel r g b a = pixel_gray (byte_num r) (byte_num g) (byte_num b) (byte_num a)"

text \<open>The same formula in exact rational arithmetic, on sample values \<open>0 .. 255\<close>.\<close>

definition composite_exact :: "rat \<Rightarrow> rat \<Rightarrow> rat" where
  "composite_exact c a = c * (a / 255) + 255 * (1 - a / 255)"

definition luminance_exact :: "rat \<Rightarrow> rat \<Rightarrow> rat \<Rightarrow> rat \<Rightarrow> rat" where
  "luminance_exact r g b a =
     299 / 1000 * composite_exact r a + 587 / 1000 * composite_exact g a
       + 114 / 1000 * composite_exact b a"

section \<open>Disperser: \<^verbatim>\<open>floydSteinbergDither\<close>\<close>

text \<open>
  \<^verbatim>\<open>
  function floydSteinbergDither(grayArray, width, height) {
    const bw = new Uint8Array(width * height); // 1 = black, 0 = white
    for (let y = 0; y < height; y++) {
      for (let x = 0; x < width; x++) {
        const idx = y * width + x;
        const oldVal = grayArray[idx];
        const newVal = oldVal < 128 ? 0 : 255; // 0 -> black, 255 -> white
        const err = oldVal - newVal;
        bw[idx] = newVal === 0 ? 1 : 0; // 1 for black
        if (x + 1 < width) grayArray[idx + 1] += (err * 7) / 16;
        if (x - 1 >= 0 && y + 1 < height) grayArray[idx + width - 1] += (err * 3) / 16;
        if (y + 1 < height) grayArray[idx + width] += (err * 5) / 16;
        if (x + 1 < width && y + 1 < height) grayArray[idx + width + 1] += (err * 1) / 16;
      }
    }
    return bw;
  }
  \<close>
  \<^verbatim>\<open>grayArray\<close> is the \<^verbatim>\<open>Float32Array\<close> of the luminance converter, changed in place: the state
  of the loops is the pair of \<^verbatim>\<open>grayArray\<close> and \<^verbatim>\<open>bw\<close>. A read out of range is
  \<^verbatim>\<open>undefined\<close>, which compares and subtracts as NaN does; \<^verbatim>\<open>a[k] += v\<close> reads \<^verbatim>\<open>a[k]\<close>,
  adds in double arithmetic and stores the sum rounded to single precision; a store out
  of range is ignored.
\<close>

definition float_get :: "jsnum list \<Rightarrow> nat \<Rightarrow> jsnum" where
  "float_get xs i = (if i < length xs then xs ! i else NaN)"

definition add_to :: "jsnum list \<Rightarrow> nat \<Rightarrow> jsnum \<Rightarrow> jsnum list" where
  "add_to xs i v = xs[i := fround (js_add (float_get xs i) v)]"

definition floydSteinbergDither_pixel ::
  "nat \<Rightarrow> nat \<Rightarrow> nat \<Rightarrow> nat \<Rightarrow> jsnum list \<times> u8 list \<Rightarrow> jsnum list \<times> u8 list" where
  "floydSteinbergDither_pixel width height y x st =
     (let grayArray = fst st; bw = snd st;
          idx = y * width + x;
          oldVal = float_get grayArray idx;
          newVal = (if js_lt oldVal (Num 128) then Num 0 else Num 255);
          err = js_sub oldVal newVal;
          bw1 = bw[idx := (if newVal = Num 0 then 1 else 0)];
          g1 = (if x + 1 < width
                then add_to grayArray (idx + 1) (js_div (js_mul err (Num 7)) (Num 16))
                else grayArray);
          g2 = (if int x - 1 \<ge> 0 \<and> y + 1 < height
                then add_to g1 (idx + width - 1) (js_div (js_mul err (Num 3)) (Num 16))
                else g1);
          g3 = (if y + 1 < height
                then add_to g2 (idx + width) (js_div (js_mul err (Num 5)) (Num 16))
                else g2);
          g4 = (if x + 1 < width \<and> y + 1 < height
                then add_to g3 (idx + width + 1) (js_div (js_mul err (Num 1)) (Num 16))
                else g3)
      in (g4, bw1))"

function floydSteinbergDither_x_loop ::
  "nat \<Rightarrow> nat \<Rightarrow> nat \<Rightarrow> nat \<Rightarrow> jsnum list \<times> u8 list \<Rightarrow> jsnum list \<times> u8 list" where
  "floydSteinbergDither_x_loop width height y x st =
     (if x < width
      then floydSteinbergDither_x_loop width height y (x + 1) (floydSteinbergDither_pixel width height y x st)
      else st)"
  by pat_completeness auto
termination
  by (relation "measure (\<lambda>(width, height, y, x, st). width - x)") auto

function floydSteinbergDither_y_loop ::
  "nat \<Rightarrow> nat \<Rightarrow> nat \<Rightarrow> jsnum list \<times> u8 list \<Rightarrow> jsnum list \<times> u8 list" where
  "floydSteinbergDither_y_loop width height y st =
     (if y < height
      then floydSteinbergDither_y_loop width height (y + 1) (floydSteinbergDither_x_loop width height y 0 st)
      else st)"
  by pat_completeness auto
termination
  by (relation "measure (\<lambda>(width, height, y, st). height - y)") auto

definition floydSteinbergDither :: "jsnum list \<Rightarrow> nat \<Rightarrow> nat \<Rightarrow> u8 list" where
  "floydSteinbergDither grayArray width height =
     snd (floydSteinbergDither_y_loop width height 0 (grayArray, replicate (width * height) 0))"

text \<open>
  The spec's words, for comparison. The neighbours of the pixel \<open>(x, y)\<close> with their
  weights, in the order right, below-left, below, below-right, those outside the buffer
  left out; adding a share of the error to one neighbour; the visit of one pixel
  (threshold at 128, signed error, shares to the neighbours); the pixels in row-major
  order; and the visits of all pixels in that order.
\<close>

definition fs_neighbours :: "nat \<Rightarrow> nat \<Rightarrow> nat \<Rightarrow> nat \<Rightarrow> ((int \<times> int) \<times> rat) list" where
  "fs_neighbours width height x y =
     filter (\<lambda>((nx, ny), k). 0 \<le> nx \<and> nx < int width \<and> 0 \<le> ny \<and> ny < int height)
       [((int x + 1, int y), 7),
        ((int x - 1, int y + 1), 3),
        ((int x, int y + 1), 5),
        ((int x + 1, int y + 1), 1)]"

definition fs_diffuse :: "nat \<Rightarrow> jsnum \<Rightarrow> jsnum list \<Rightarrow> (int \<times> int) \<times> rat \<Rightarrow> jsnum list" where
  "fs_diffuse width err gray n =
     (let i = nat (snd (fst n) * int width + fst (fst n))
      in gray[i := fround (js_add (gray ! i) (js_div (js_mul err (Num (snd n))) (Num 16)))])"

definition fs_visit ::
  "nat \<Rightarrow> nat \<Rightarrow> jsnum list \<times> u8 list \<Rightarrow> nat \<times> nat \<Rightarrow> jsnum list \<times> u8 list" where
  "fs_visit width height st c =
     (let gray = fst st; bits = snd st; x = fst c; y = snd c;
          v = gray ! (y * width + x);
          mark = js_lt v (Num 128);
          err = js_sub v (if mark then Num 0 else Num 255)
      in (foldl (fs_diffuse width err) gray (fs_neighbours width height x y),
          bits[y * width + x := (if mark then 1 else 0)]))"

definition row_major :: "nat \<Rightarrow> nat \<Rightarrow> (nat \<times> nat) list" where
  "row_major width height = concat (map (\<lambda>y. map (\<lambda>x. (x, y)) [0..<width]) [0..<height])"

definition dither_spec :: "jsnum list \<Rightarrow> nat \<Rightarrow> nat \<Rightarrow> u8 list" where
  "dither_spec gray width height =
     snd (foldl (fs_visit width height) (gray, replicate (width * height) 0) (row_major width height))"

section \<open>Properties of the Framer\<close>

subsection \<open>Low and high byte of a field\<close>

lemma toInt32_signed_take_bit: "toInt32 n = signed_take_bit 31 n"
  by (simp add: toInt32_def signed_take_bit_eq_take_bit_shift take_bit_eq_mod)

lemma and_255_take_bit: "(x::int) AND 255 = take_bit 8 x"
  by (simp add: take_bit_eq_mask mask_eq_exp_minus_1)

lemma toInt32_small: "- (2 ^ 31) \<le> n \<Longrightarrow> n < 2 ^ 31 \<Longrightarrow> toInt32 n = n"
  by (simp add: toInt32_def)

lemma js_and_255: "js_and n 0xFF = n AND 255"
proof -
  have "take_bit 8 (signed_take_bit 31 n) = take_bit 8 n"
    by (simp add: take_bit_signed_take_bit)
  then show ?thesis
    by (simp add: js_and_def toInt32_signed_take_bit toInt32_small and_255_take_bit)
qed

lemma js_shr8_and_255: "js_shr n 8 AND 255 = drop_bit 8 n AND 255"
proof -
  have "take_bit 8 (drop_bit 8 (toInt32 n)) = drop_bit 8 (take_bit 16 (signed_take_bit 31 n))"
    by (simp add: drop_bit_take_bit toInt32_signed_take_bit)
  also have "\<dots> = drop_bit 8 (take_bit 16 n)"
    by (simp add: take_bit_signed_take_bit)
  also have "\<dots> = take_bit 8 (drop_bit 8 n)"
    by (simp add: drop_bit_take_bit)
  finally have "drop_bit 8 (toInt32 n) AND 255 = drop_bit 8 n AND 255"
    by (simp add: and_255_take_bit)
  then show ?thesis
    by (simp add: js_shr_def)
qed

lemma and_255_mod: "(x::int) AND 255 = x mod 256"
  by (simp add: and_255_take_bit take_bit_eq_mod)

lemma and_255_range: "0 \<le> (x::int) AND 255 \<and> x AND 255 < 256"
  by (simp add: and_255_mod)

lemma uint_byte: "0 \<le> x \<Longrightarrow> x < 256 \<Longrightarrow> uint (word_of_int x :: u8) = x"
  by (simp add: uint_word_of_int)

lemma buildGsV0Raster_eq:
  "buildGsV0Raster rowBytes height bitmapData mode =
     Inr (map word_of_int [0x1D, 0x76, 0x30, mode, rowBytes AND 255,
            drop_bit 8 rowBytes AND 255, height AND 255, drop_bit 8 height AND 255]
          @ bitmapData)"
  by (simp add: buildGsV0Raster_def js_and_255 js_shr8_and_255)

text \<open>
  C1. For a mode byte, the command buffer starts with the eight bytes
  \<open>1D 76 30 mode\<close>, \<open>bytesPerRow & 0xFF\<close>, \<open>(bytesPerRow >> 8) & 0xFF\<close>,
  \<open>height & 0xFF\<close>, \<open>(height >> 8) & 0xFF\<close> (here on unbounded integers: the
  ToInt32 conversion of the source does not change these two bytes), and the packed
  raster bytes follow unchanged.
\<close>

theorem buildGsV0Raster_header:
  assumes "0 \<le> mode" and "mode < 256"
  shows "\<exists>out. buildGsV0Raster rowBytes height bitmapData mode = Inr out \<and>
           map uint (take 8 out) =
             [0x1D, 0x76, 0x30, mode,
              rowBytes AND 0xFF, drop_bit 8 rowBytes AND 0xFF,
              height AND 0xFF, drop_bit 8 height AND 0xFF] \<and>
           drop 8 out = bitmapData \<and>
           length out = 8 + length bitmapData"
  using assms
  by (simp add: buildGsV0Raster_eq uint_byte and_255_range)

theorem buildGsV0Raster_header_witness:
  "\<exists>out. buildGsV0Raster 48 100 [0xFF, 0x00] 0 = Inr out \<and>
         map uint (take 8 out) = [0x1D, 0x76, 0x30, 0x00, 0x30, 0x00, 0x64, 0x00] \<and>
         drop 8 out = [0xFF, 0x00] \<and> length out = 10"
  using buildGsV0Raster_header [of 0 48 100 "[0xFF, 0x00]"]
  by (simp add: and_255_mod drop_bit_eq_div)

lemma low_high_byte: "(x::int) AND 255 = a \<Longrightarrow> drop_bit 8 x AND 255 = b \<Longrightarrow> a + 256 * b = x mod 65536"
proof -
  assume a: "x AND 255 = a" and b: "drop_bit 8 x AND 255 = b"
  have "x mod (256 * 256) = 256 * (x div 256 mod 256) + x mod 256"
    by (rule zmod_zmult2_eq) simp
  with a b show ?thesis
    by (simp add: and_255_mod drop_bit_eq_div)
qed

text \<open>
  C4 as stated fails: with \<open>bytesPerRow = 65536\<close> and \<open>height = 70000\<close> the
  function returns a command buffer, the fields truncated to \<open>00 00\<close> and \<open>70 11\<close>.
\<close>

theorem buildGsV0Raster_overflow_counterexample:
  "buildGsV0Raster 65536 70000 [0xFF] 0 =
     Inr [0x1D, 0x76, 0x30, 0x00, 0x00, 0x00, 0x70, 0x11, 0xFF] \<and>
   buildGsV0Raster 65536 70000 [0xFF] 0 \<noteq> Inl InvalidInput"
  by (simp add: buildGsV0Raster_eq and_255_mod drop_bit_eq_div)

text \<open>
  C4, amended. The Framer checks no range: for every \<open>bytesPerRow\<close> and \<open>height\<close>,
  also above \<open>0xFFFF\<close>, it returns a command buffer and never an error, and each
  16-bit field of the header (low byte first) holds its value modulo \<open>2^16\<close>.
\<close>

theorem buildGsV0Raster_never_fails:
  "\<exists>out. buildGsV0Raster rowBytes height bitmapData mode = Inr out \<and>
         length out = 8 + length bitmapData \<and>
         uint (out ! 4) + 256 * uint (out ! 5) = rowBytes mod 65536 \<and>
         uint (out ! 6) + 256 * uint (out ! 7) = height mod 65536"
proof -
  have "uint (word_of_int (rowBytes AND 255) :: u8)
          + 256 * uint (word_of_int (drop_bit 8 rowBytes AND 255) :: u8)
        = rowBytes mod 65536"
    by (rule low_high_byte) (simp_all add: uint_byte and_255_range)
  moreover have "uint (word_of_int (height AND 255) :: u8)
          + 256 * uint (word_of_int (drop_bit 8 height AND 255) :: u8)
        = height mod 65536"
    by (rule low_high_byte) (simp_all add: uint_byte and_255_range)
  ultimately show ?thesis
    by (simp add: buildGsV0Raster_eq)
qed

section \<open>Properties of the Packer\<close>

lemma js_ceil_div8_eq: "js_ceil_div8 w = (w + 7) div 8"
proof -
  have "\<lceil>rat_of_nat w / 8\<rceil> = \<lceil>of_int (int w) / (of_int 8 :: rat)\<rceil>"
    by simp
  also have "\<dots> = - (- int w div 8)"
    by (rule ceiling_divide_eq_div)
  also have "\<dots> = int ((w + 7) div 8)"
    by linarith
  finally show ?thesis
    by (simp add: js_ceil_div8_def)
qed

declare packBits_bit_loop.simps [simp del] packBits_bx_loop.simps [simp del] packBits_y_loop.simps [simp del]

lemma bit_toInt32: "j \<le> 31 \<Longrightarrow> bit (toInt32 a) j = bit a j"
  by (simp add: toInt32_signed_take_bit bit_signed_take_bit_iff min_def)

lemma bit_js_or: "j \<le> 31 \<Longrightarrow> bit (js_or a b) j = (bit a j \<or> bit b j)"
  by (simp add: js_or_def bit_or_iff bit_toInt32)

lemma bit_mask_0x80: "k < 8 \<Longrightarrow> bit (js_shr 0x80 k) j = (j + k = 7)"
proof -
  assume k: "k < 8"
  have "bit (drop_bit k (128::int)) j = bit ((2::int) ^ 7) (k + j)"
    by (simp add: bit_drop_bit_eq)
  also have "\<dots> = (k + j = 7)"
    by (simp only: bit_exp_iff) auto
  finally show ?thesis using k
    by (simp add: js_shr_def toInt32_small add.commute)
qed

lemma bit_loop_step:
  "b < 8 \<Longrightarrow>
   packBits_bit_loop bitArray width y bx b byte =
     packBits_bit_loop bitArray width y bx (b + 1)
       (if marked bitArray width y (bx * 8 + b) then js_or byte (js_shr 0x80 b) else byte)"
  by (subst packBits_bit_loop.simps) (simp add: marked_def Let_def)

lemma bit_loop_bits:
  "j \<le> 31 \<Longrightarrow>
   bit (packBits_bit_loop bitArray width y bx b byte) j =
     (bit byte j \<or> (j \<le> 7 \<and> b \<le> 7 - j \<and> marked bitArray width y (bx * 8 + (7 - j))))"
proof (induction "8 - b" arbitrary: b byte)
  case 0
  then have "\<not> b < 8" by simp
  then show ?case by (subst packBits_bit_loop.simps) auto
next
  case (Suc n)
  then have b: "b < 8" by simp
  let ?byte' = "if marked bitArray width y (bx * 8 + b) then js_or byte (js_shr 0x80 b) else byte"
  have n: "n = 8 - (b + 1)" using Suc.hyps(2) by simp
  have step: "bit (packBits_bit_loop bitArray width y bx b byte) j =
      (bit ?byte' j \<or> (j \<le> 7 \<and> b + 1 \<le> 7 - j \<and> marked bitArray width y (bx * 8 + (7 - j))))"
    using Suc.hyps(1) [OF n Suc.prems, of ?byte'] by (simp only: bit_loop_step [OF b])
  have byte': "bit ?byte' j = (bit byte j \<or> (marked bitArray width y (bx * 8 + b) \<and> j + b = 7))"
    using Suc.prems b by (simp add: bit_js_or bit_mask_0x80)
  have "(marked bitArray width y (bx * 8 + b) \<and> j + b = 7) = (j \<le> 7 \<and> b = 7 - j \<and> marked bitArray width y (bx * 8 + (7 - j)))"
  proof (cases "j + b = 7")
    case True
    then have "7 - j = b" "j \<le> 7" by arith+
    with True show ?thesis by simp
  next
    case False
    then show ?thesis by auto
  qed
  with step byte' show ?case
    by (auto simp: le_less Suc_le_eq)
qed

lemma bit_loop_byte:
  "bit (word_of_int (packBits_bit_loop bitArray width y bx 0 0) :: u8) j =
     (j \<le> 7 \<and> marked bitArray width y (bx * 8 + (7 - j)))"
  by (auto simp: bit_word_of_int_iff bit_loop_bits)

lemma bx_loop_length:
  "length (packBits_bx_loop bitArray width bpr y bx out) = length out"
proof (induction bitArray width bpr y bx out rule: packBits_bx_loop.induct)
  case (1 bitArray width bpr y bx out)
  then show ?case
    by (subst packBits_bx_loop.simps) (simp add: Let_def)
qed

lemma bx_loop_nth:
  "i < length out \<Longrightarrow>
   packBits_bx_loop bitArray width bpr y bx out ! i =
     (if y * bpr + bx \<le> i \<and> i < y * bpr + bpr then packed_byte bitArray width y (i - y * bpr)
      else out ! i)"
proof (induction bitArray width bpr y bx out rule: packBits_bx_loop.induct)
  case (1 bitArray width bpr y bx out)
  show ?case
  proof (cases "bx < bpr")
    case False
    then have "\<not> (y * bpr + bx \<le> i \<and> i < y * bpr + bpr)" by arith
    with False show ?thesis by (subst packBits_bx_loop.simps) auto
  next
    case True
    let ?out' = "out[y * bpr + bx := packed_byte bitArray width y bx]"
    have len: "i < length ?out'" using "1.prems" by simp
    have "packBits_bx_loop bitArray width bpr y bx out ! i =
            packBits_bx_loop bitArray width bpr y (bx + 1) ?out' ! i"
      using True by (subst packBits_bx_loop.simps) (simp add: Let_def packed_byte_def)
    also have "\<dots> = (if y * bpr + (bx + 1) \<le> i \<and> i < y * bpr + bpr
                        then packed_byte bitArray width y (i - y * bpr) else ?out' ! i)"
      using "1.IH" [OF True refl] len by (simp add: packed_byte_def)
    also have "\<dots> = (if y * bpr + bx \<le> i \<and> i < y * bpr + bpr
                        then packed_byte bitArray width y (i - y * bpr) else out ! i)"
    proof (cases "i = y * bpr + bx")
      case True
      with \<open>bx < bpr\<close> "1.prems" show ?thesis by simp
    next
      case False
      then have "?out' ! i = out ! i" by simp
      with False show ?thesis by auto
    qed
    finally show ?thesis .
  qed
qed

lemma y_loop_length:
  "length (packBits_y_loop bitArray width height bpr y out) = length out"
proof (induction bitArray width height bpr y out rule: packBits_y_loop.induct)
  case (1 bitArray width height bpr y out)
  then show ?case
    by (subst packBits_y_loop.simps) (simp add: bx_loop_length)
qed

lemma row_index:
  fixes i :: nat
  assumes "y * bpr \<le> i" and "i < y * bpr + bpr"
  shows "i div bpr = y" and "i mod bpr = i - y * bpr"
proof -
  have i: "i = (i - y * bpr) + y * bpr" using assms by simp
  have lt: "i - y * bpr < bpr" using assms by arith
  have "i div bpr = ((i - y * bpr) + y * bpr) div bpr" using i by simp
  also have "\<dots> = y" using lt by simp
  finally show "i div bpr = y" .
  have "i mod bpr = ((i - y * bpr) + y * bpr) mod bpr" using i by simp
  also have "\<dots> = i - y * bpr" using lt by simp
  finally show "i mod bpr = i - y * bpr" .
qed

lemma row_end_le:
  fixes y :: nat
  assumes "y < height"
  shows "y * bpr + bpr \<le> height * bpr"
proof -
  from assms have "Suc y \<le> height" by simp
  then have "Suc y * bpr \<le> height * bpr" by (rule mult_le_mono1)
  then show ?thesis by simp
qed

lemma y_loop_nth:
  "i < length out \<Longrightarrow>
   packBits_y_loop bitArray width height bpr y out ! i =
     (if y * bpr \<le> i \<and> i < height * bpr
      then packed_byte bitArray width (i div bpr) (i mod bpr) else out ! i)"
proof (induction bitArray width height bpr y out rule: packBits_y_loop.induct)
  case (1 bitArray width height bpr y out)
  show ?case
  proof (cases "y < height")
    case False
    then have "\<not> (y * bpr \<le> i \<and> i < height * bpr)"
      by (metis leD le_trans mult_le_mono1 not_le_imp_less)
    with False show ?thesis by (subst packBits_y_loop.simps) auto
  next
    case True
    let ?out' = "packBits_bx_loop bitArray width bpr y 0 out"
    have len: "i < length ?out'" using "1.prems" by (simp add: bx_loop_length)
    have "packBits_y_loop bitArray width height bpr y out ! i =
            packBits_y_loop bitArray width height bpr (y + 1) ?out' ! i"
      using True by (subst packBits_y_loop.simps) simp
    also have "\<dots> = (if (y + 1) * bpr \<le> i \<and> i < height * bpr
                        then packed_byte bitArray width (i div bpr) (i mod bpr) else ?out' ! i)"
      using "1.IH" [OF True len] .
    also have "\<dots> = (if y * bpr \<le> i \<and> i < height * bpr
                        then packed_byte bitArray width (i div bpr) (i mod bpr) else out ! i)"
    proof (cases "y * bpr \<le> i \<and> i < y * bpr + bpr")
      case True
      then have "i div bpr = y" "i mod bpr = i - y * bpr"
        by (simp_all add: row_index)
      moreover have "(y + 1) * bpr \<le> height * bpr"
        using row_end_le [OF \<open>y < height\<close>, of bpr] by simp
      ultimately show ?thesis
        using True "1.prems" by (simp add: bx_loop_nth)
    next
      case False
      then show ?thesis
        using "1.prems" by (auto simp add: bx_loop_nth)
    qed
    finally show ?thesis .
  qed
qed

lemma packBits_data_nth:
  assumes "y < height" and "bx < bytesPerRow (packBitsMonochrome bitArray width height)"
  shows "data (packBitsMonochrome bitArray width height)
           ! (y * bytesPerRow (packBitsMonochrome bitArray width height) + bx)
         = packed_byte bitArray width y bx"
proof -
  let ?bpr = "js_ceil_div8 width"
  let ?i = "y * ?bpr + bx"
  have bx: "bx < ?bpr" using assms(2) by (simp add: packBitsMonochrome_def Let_def)
  have "?i < y * ?bpr + ?bpr" using bx by simp
  also have "\<dots> \<le> height * ?bpr" using assms(1) by (rule row_end_le)
  finally have lt: "?i < height * ?bpr" .
  have dm: "?i div ?bpr = y" "?i mod ?bpr = bx"
    using bx by simp_all
  have "packBits_y_loop bitArray width height ?bpr 0 (replicate (?bpr * height) 0) ! ?i
          = packed_byte bitArray width (?i div ?bpr) (?i mod ?bpr)"
    using lt by (subst y_loop_nth) (simp_all add: mult.commute)
  then show ?thesis
    using bx by (simp add: packBitsMonochrome_def Let_def)
qed

lemma packBits_length:
  "length (data (packBitsMonochrome bitArray width height))
     = bytesPerRow (packBitsMonochrome bitArray width height) * height"
  by (simp add: packBitsMonochrome_def Let_def y_loop_length)

lemma packBits_bytesPerRow:
  "bytesPerRow (packBitsMonochrome bitArray width height) = (width + 7) div 8"
  by (simp add: packBitsMonochrome_def Let_def js_ceil_div8_eq)

lemma packBits_bit:
  assumes "y < height" and "x < 8 * bytesPerRow (packBitsMonochrome bitArray width height)"
  shows "bit (data (packBitsMonochrome bitArray width height)
           ! (y * bytesPerRow (packBitsMonochrome bitArray width height) + x div 8)) (7 - x mod 8)
         = marked bitArray width y x"
proof -
  have bx: "x div 8 < bytesPerRow (packBitsMonochrome bitArray width height)"
    using assms(2) by (simp add: less_mult_imp_div_less mult.commute)
  have j: "7 - (7 - x mod 8) = x mod 8" by arith
  show ?thesis
    by (simp add: packBits_data_nth [OF assms(1) bx] packed_byte_def bit_loop_byte j)
qed

lemma js_read_bit:
  fixes d :: u8
  assumes "k < 8"
  shows "js_and (js_shr (uint d) k) 1 = of_bool (bit d k)"
proof -
  have "js_and (js_shr (uint d) k) 1 = toInt32 (js_shr (uint d) k) mod 2"
    by (simp add: js_and_def toInt32_small and_one_eq)
  also have "\<dots> = of_bool (bit (toInt32 (js_shr (uint d) k)) 0)"
    by (simp add: bit_0 mod_2_eq_odd)
  also have "bit (toInt32 (js_shr (uint d) k)) 0 = bit (js_shr (uint d) k) 0"
    by (simp add: bit_toInt32)
  also have "\<dots> = bit (toInt32 (uint d)) k"
    using assms by (simp add: js_shr_def bit_drop_bit_eq)
  also have "\<dots> = bit d k"
    using assms by (simp add: bit_toInt32 bit_uint_iff)
  finally show ?thesis .
qed

lemma width_le_row: "(x::nat) < width \<Longrightarrow> x < 8 * ((width + 7) div 8)"
  by arith

lemma marked_iff:
  "marked bitArray width y x =
     (x < width \<and> y * width + x < length bitArray \<and> bitArray ! (y * width + x) \<noteq> 0)"
  by (simp add: marked_def truthy_def typed_get_def)

lemma pixel_index_in_range:
  fixes x :: nat
  assumes "y < height" and "x < width"
  shows "y * width + x < width * height"
proof -
  have "y * width + x < y * width + width" using assms(2) by simp
  also have "\<dots> \<le> height * width" using assms(1) by (rule row_end_le)
  finally show ?thesis by (simp add: mult.commute)
qed

lemma uint_bit_value: "(b::u8) = 0 \<or> b = 1 \<Longrightarrow> of_bool (b \<noteq> 0) = uint b"
  by auto

text \<open>
  C3. For a bitmap of \<open>width * height\<close> entries that are 0 or 1, the packer gives
  \<open>bytesPerRow = ceil(width / 8)\<close> bytes per row, \<open>bytesPerRow * height\<close> bytes in all,
  and the JavaScript expression
  \<^verbatim>\<open>(packed[y*bytesPerRow + floor(x/8)] >> (7 - x%8)) & 1\<close> reads back the entry at
  \<open>(x, y)\<close> for every \<open>x < width\<close>, \<open>y < height\<close>: the first pixel of each group of
  eight is the most significant bit. The bits of a row at columns from \<open>width\<close> on
  (the padding of the last byte) are zero.
\<close>

theorem packBitsMonochrome_roundtrip:
  assumes "1 \<le> width" and "1 \<le> height"
    and "length bitArray = width * height"
    and "\<forall>b \<in> set bitArray. b = 0 \<or> b = 1"
  shows "int (bytesPerRow (packBitsMonochrome bitArray width height)) = \<lceil>rat_of_nat width / 8\<rceil> \<and>
         length (data (packBitsMonochrome bitArray width height))
           = bytesPerRow (packBitsMonochrome bitArray width height) * height \<and>
         (\<forall>y < height. \<forall>x < width.
            js_and (js_shr (uint (data (packBitsMonochrome bitArray width height)
                 ! (y * bytesPerRow (packBitsMonochrome bitArray width height) + x div 8)))
               (7 - x mod 8)) 1
            = uint (bitArray ! (y * width + x))) \<and>
         (\<forall>y < height. \<forall>x. width \<le> x \<and> x < 8 * bytesPerRow (packBitsMonochrome bitArray width height) \<longrightarrow>
            js_and (js_shr (uint (data (packBitsMonochrome bitArray width height)
                 ! (y * bytesPerRow (packBitsMonochrome bitArray width height) + x div 8)))
               (7 - x mod 8)) 1
            = 0)"
proof (intro conjI allI impI)
  let ?p = "packBitsMonochrome bitArray width height"
  show "int (bytesPerRow ?p) = \<lceil>rat_of_nat width / 8\<rceil>"
    by (simp add: packBitsMonochrome_def Let_def js_ceil_div8_def)
  show "length (data ?p) = bytesPerRow ?p * height"
    by (rule packBits_length)
next
  let ?p = "packBitsMonochrome bitArray width height"
  fix y x assume y: "y < height" and x: "x < width"
  have x8: "x < 8 * bytesPerRow ?p"
    using x by (simp only: packBits_bytesPerRow width_le_row)
  have i: "y * width + x < length bitArray"
    using y x assms(3) by (simp add: pixel_index_in_range)
  then have "bitArray ! (y * width + x) \<in> set bitArray" by simp
  with assms(4) have v: "bitArray ! (y * width + x) = 0 \<or> bitArray ! (y * width + x) = 1"
    by blast
  have "js_and (js_shr (uint (data ?p ! (y * bytesPerRow ?p + x div 8))) (7 - x mod 8)) 1
          = of_bool (marked bitArray width y x)"
    by (simp add: js_read_bit packBits_bit [OF y x8])
  also have "\<dots> = of_bool (bitArray ! (y * width + x) \<noteq> 0)"
    using x i by (simp add: marked_iff)
  also have "\<dots> = uint (bitArray ! (y * width + x))"
    using v by (rule uint_bit_value)
  finally show "js_and (js_shr (uint (data ?p ! (y * bytesPerRow ?p + x div 8))) (7 - x mod 8)) 1
          = uint (bitArray ! (y * width + x))" .
next
  let ?p = "packBitsMonochrome bitArray width height"
  fix y x assume y: "y < height" and x: "width \<le> x \<and> x < 8 * bytesPerRow ?p"
  then have x8: "x < 8 * bytesPerRow ?p" and nx: "\<not> x < width" by simp_all
  have "js_and (js_shr (uint (data ?p ! (y * bytesPerRow ?p + x div 8))) (7 - x mod 8)) 1
          = of_bool (marked bitArray width y x)"
    by (simp add: js_read_bit packBits_bit [OF y x8])
  also have "\<dots> = 0"
    using nx by (simp add: marked_iff)
  finally show "js_and (js_shr (uint (data ?p ! (y * bytesPerRow ?p + x div 8))) (7 - x mod 8)) 1 = 0" .
qed

theorem packBitsMonochrome_roundtrip_witness:
  "packBitsMonochrome [1, 0, 1, 1, 0, 0, 0, 1, 1, 1] 10 1 = \<lparr>data = [0xB1, 0xC0], bytesPerRow = 2\<rparr> \<and>
   js_and (js_shr (uint (data (packBitsMonochrome [1, 0, 1, 1, 0, 0, 0, 1, 1, 1] 10 1)
        ! (0 * bytesPerRow (packBitsMonochrome [1, 0, 1, 1, 0, 0, 0, 1, 1, 1] 10 1) + 9 div 8)))
      (7 - 9 mod 8)) 1 = uint ([1, 0, 1, 1, 0, 0, 0, 1, 1, 1 :: u8] ! (0 * 10 + 9)) \<and>
   js_and (js_shr (uint (data (packBitsMonochrome [1, 0, 1, 1, 0, 0, 0, 1, 1, 1] 10 1)
        ! (0 * bytesPerRow (packBitsMonochrome [1, 0, 1, 1, 0, 0, 0, 1, 1, 1] 10 1) + 12 div 8)))
      (7 - 12 mod 8)) 1 = 0"
proof -
  let ?bits = "[1, 0, 1, 1, 0, 0, 0, 1, 1, 1] :: u8 list"
  let ?p = "packBitsMonochrome ?bits 10 1"
  have p: "?p = \<lparr>data = [0xB1, 0xC0], bytesPerRow = 2\<rparr>"
    by code_simp
  have "(1::nat) \<le> 10" and "(1::nat) \<le> 1" and "length ?bits = 10 * 1"
    and "\<forall>b \<in> set ?bits. b = 0 \<or> b = 1"
    by simp_all
  note t = packBitsMonochrome_roundtrip [OF this]
  have "(0::nat) < 1" and "(9::nat) < 10" by simp_all
  with t have r: "js_and (js_shr (uint (data ?p ! (0 * bytesPerRow ?p + 9 div 8))) (7 - 9 mod 8)) 1
      = uint (?bits ! (0 * 10 + 9))"
    by blast
  have "(10::nat) \<le> 12 \<and> 12 < 8 * bytesPerRow ?p" unfolding p by simp
  with t \<open>(0::nat) < 1\<close>
  have z: "js_and (js_shr (uint (data ?p ! (0 * bytesPerRow ?p + 12 div 8))) (7 - 12 mod 8)) 1 = 0"
    by blast
  from p r z show ?thesis by blast
qed

text \<open>
  C10. The packer does not check that the entries are single bits. For every input
  array and every pixel \<open>(x, y)\<close> of the \<open>width * height\<close> grid, the packed bit is set
  if and only if the entry at index \<open>y * width + x\<close> exists and is nonzero. An entry
  above 1 is a mark like 1; the function has no failure branch.
\<close>

theorem packBitsMonochrome_nonzero_is_mark:
  assumes "y < height" and "x < width"
  shows "bit (data (packBitsMonochrome bitArray width height)
            ! (y * bytesPerRow (packBitsMonochrome bitArray width height) + x div 8)) (7 - x mod 8)
         = (y * width + x < length bitArray \<and> bitArray ! (y * width + x) \<noteq> 0)"
proof -
  let ?p = "packBitsMonochrome bitArray width height"
  have x8: "x < 8 * bytesPerRow ?p"
    using assms(2) by (simp only: packBits_bytesPerRow width_le_row)
  show ?thesis
    using assms(2) by (simp add: packBits_bit [OF assms(1) x8] marked_iff)
qed

theorem packBitsMonochrome_nonzero_is_mark_witness:
  "packBitsMonochrome [2, 0, 255, 1, 0, 0, 0, 7, 1, 1] 10 1 = \<lparr>data = [0xB1, 0xC0], bytesPerRow = 2\<rparr> \<and>
   bit (data (packBitsMonochrome [2, 0, 255, 1, 0, 0, 0, 7, 1, 1] 10 1)
          ! (0 * bytesPerRow (packBitsMonochrome [2, 0, 255, 1, 0, 0, 0, 7, 1, 1] 10 1) + 7 div 8))
       (7 - 7 mod 8)
     = (0 * 10 + 7 < length [2, 0, 255, 1, 0, 0, 0, 7, 1, 1 :: u8] \<and>
        [2, 0, 255, 1, 0, 0, 0, 7, 1, 1 :: u8] ! (0 * 10 + 7) \<noteq> 0)"
proof -
  have "packBitsMonochrome [2, 0, 255, 1, 0, 0, 0, 7, 1, 1] 10 1 = \<lparr>data = [0xB1, 0xC0], bytesPerRow = 2\<rparr>"
    by code_simp
  moreover have "(0::nat) < 1" and "(7::nat) < 10" by simp_all
  note packBitsMonochrome_nonzero_is_mark [OF this, of "[2, 0, 255, 1, 0, 0, 0, 7, 1, 1]"]
  ultimately show ?thesis by simp
qed

section \<open>Properties of the USB endpoint discovery\<close>

lemma find_append_case:
  "find P (xs @ ys) = (case find P xs of None \<Rightarrow> find P ys | Some x \<Rightarrow> Some x)"
  by (induction xs) auto

lemma ep_loop_find:
  "openUsbDevice_ep_loop cfg eps \<lparr>sel_ifaceNumber = None, sel_endpointNumber = None\<rparr> =
     (case find (\<lambda>(c, ep). direction ep = Out) (map (Pair cfg) eps) of
        None \<Rightarrow> \<lparr>sel_ifaceNumber = None, sel_endpointNumber = None\<rparr>
      | Some p \<Rightarrow> selected p)"
  by (induction eps) (auto simp: selected_def)

lemma alt_loop_find:
  "openUsbDevice_alt_loop cfg alts \<lparr>sel_ifaceNumber = None, sel_endpointNumber = None\<rparr> =
     (case find (\<lambda>(c, ep). direction ep = Out)
             (concat (map (\<lambda>alt. map (Pair cfg) (case endpoints alt of None \<Rightarrow> [] | Some eps \<Rightarrow> eps)) alts)) of
        None \<Rightarrow> \<lparr>sel_ifaceNumber = None, sel_endpointNumber = None\<rparr>
      | Some p \<Rightarrow> selected p)"
proof (induction alts)
  case Nil
  then show ?case by simp
next
  case (Cons alt alts)
  show ?case
  proof (cases "endpoints alt")
    case None
    with Cons show ?thesis by simp
  next
    case (Some eps)
    with Cons show ?thesis
      by (simp add: find_append_case ep_loop_find Let_def selected_def split: option.splits)
  qed
qed

lemma cfg_loop_find:
  "openUsbDevice_cfg_loop interfaces \<lparr>sel_ifaceNumber = None, sel_endpointNumber = None\<rparr> =
     (case first_out_endpoint interfaces of
        None \<Rightarrow> \<lparr>sel_ifaceNumber = None, sel_endpointNumber = None\<rparr>
      | Some p \<Rightarrow> selected p)"
proof (induction interfaces)
  case Nil
  then show ?case by (simp add: first_out_endpoint_def endpoints_in_order_def)
next
  case (Cons cfg cfgs)
  then show ?case
    by (simp add: first_out_endpoint_def endpoints_in_order_def find_append_case alt_loop_find
        Let_def selected_def split: option.splits)
qed

text \<open>
  C6. Discovery returns the endpoint number and the owning interface's number of the
  first endpoint, in declared interface-then-alternate-then-endpoint order, whose
  direction is OUT; when the tree has no OUT endpoint it fails with \<open>DeviceUnsupported\<close>.
\<close>

theorem openUsbDevice_first_out:
  "openUsbDevice_discover interfaces =
     (case first_out_endpoint interfaces of
        None \<Rightarrow> Inl DeviceUnsupported
      | Some (cfg, ep) \<Rightarrow>
          Inr \<lparr>sel_ifaceNumber = Some (interfaceNumber cfg), sel_endpointNumber = Some (endpointNumber ep)\<rparr>)"
  by (simp add: openUsbDevice_discover_def cfg_loop_find selected_def split: option.splits)

section \<open>Properties of the relay socket transport\<close>




lemma run_messages:
  "set msgs \<subseteq> {EvMessage} \<Longrightarrow> foldl (sendViaWebSocket_step buf) s msgs = s"
  by (induction msgs arbitrary: s) auto



text \<open>
  The timer runs from the creation of the socket, not from the send: when it fires while
  the socket is still connecting it does nothing, and a connection that opens afterwards
  and is never closed leaves the promise pending.
\<close>

lemma sendViaWebSocket_late_open:
  "set msgs \<subseteq> {EvMessage} \<Longrightarrow>
   promise (sendViaWebSocket buf (EvTimeout # EvOpen # msgs)) = Pending"
  by (simp add: sendViaWebSocket_def run_messages) (simp add: ws_init_def)

section \<open>Properties of the rounding\<close>

lemma of_int_pow2: "0 \<le> k \<Longrightarrow> rat_of_int (2 ^ nat k) = 2 powi k"
  by (simp add: power_int_nonneg_exp)

lemma pow2_add: "(2::rat) powi (a + b) = 2 powi a * 2 powi b"
  by (rule power_int_add) simp

lemma pow2_diff: "(2::rat) powi (a - b) = 2 powi a / 2 powi b"
  by (rule power_int_diff) simp

lemma bitlen_rat_bounds:
  assumes "0 < n"
  shows "2 powi (bitlen n - 1) \<le> rat_of_int n" and "rat_of_int n < 2 powi (bitlen n)"
proof -
  have b: "1 \<le> bitlen n"
    using assms bitlen_eq_zero_iff [of n] bitlen_nonneg [of n] by linarith
  from bitlen_bounds [OF assms]
  have "rat_of_int (2 ^ nat (bitlen n - 1)) \<le> rat_of_int n"
    and "rat_of_int n < rat_of_int (2 ^ nat (bitlen n))"
    by (simp_all only: of_int_le_iff of_int_less_iff)
  then show "2 powi (bitlen n - 1) \<le> rat_of_int n" and "rat_of_int n < 2 powi (bitlen n)"
    using b by (simp_all only: of_int_pow2)
qed

lemma ilog2_bounds:
  assumes "x \<noteq> 0"
  shows "2 powi (ilog2 x) \<le> \<bar>x\<bar>" and "\<bar>x\<bar> < 2 powi (ilog2 x + 1)"
proof -
  obtain n d where q: "quotient_of \<bar>x\<bar> = (n, d)" by (cases "quotient_of \<bar>x\<bar>")
  then have d: "0 < d" by (rule quotient_of_denom_pos)
  from q have x: "\<bar>x\<bar> = rat_of_int n / rat_of_int d" by (rule quotient_of_div)
  have "0 < \<bar>x\<bar>" using assms by simp
  with x d have n: "0 < n" by (simp add: zero_less_divide_iff)
  let ?e = "bitlen n - bitlen d"
  have dpos: "0 < rat_of_int d" using d by simp
  have up: "\<bar>x\<bar> < 2 powi (?e + 1)"
  proof -
    have "rat_of_int n / rat_of_int d < 2 powi (bitlen n) / rat_of_int d"
      using bitlen_rat_bounds(2) [OF n] dpos by (simp add: divide_strict_right_mono)
    also have "\<dots> \<le> 2 powi (bitlen n) / 2 powi (bitlen d - 1)"
      using bitlen_rat_bounds(1) [OF d] by (simp add: frac_le)
    also have "\<dots> = 2 powi (bitlen n - (bitlen d - 1))"
      by (rule power_int_diff [symmetric]) simp
    also have "bitlen n - (bitlen d - 1) = ?e + 1" by simp
    finally show ?thesis by (simp only: x)
  qed
  have lo: "2 powi (?e - 1) \<le> \<bar>x\<bar>"
  proof -
    have "?e - 1 = bitlen n - 1 - bitlen d" by simp
    then have "2 powi (?e - 1) = (2 powi (bitlen n - 1 - bitlen d) :: rat)" by (rule arg_cong)
    also have "\<dots> = 2 powi (bitlen n - 1) / (2 powi (bitlen d) :: rat)"
      by (rule power_int_diff) simp
    also have "\<dots> \<le> rat_of_int n / 2 powi (bitlen d)"
      using bitlen_rat_bounds(1) [OF n] by (simp add: divide_right_mono)
    also have "\<dots> \<le> rat_of_int n / rat_of_int d"
      using bitlen_rat_bounds(2) [OF d] n dpos by (simp add: frac_le)
    finally show ?thesis by (simp only: x)
  qed
  have il: "ilog2 x = (if 2 powi ?e \<le> \<bar>x\<bar> then ?e else ?e - 1)"
    by (simp add: ilog2_def q Let_def)
  show "2 powi (ilog2 x) \<le> \<bar>x\<bar>"
    using lo by (simp add: il)
  show "\<bar>x\<bar> < 2 powi (ilog2 x + 1)"
    using up by (auto simp add: il not_le)
qed

lemma round_half_even_error: "\<bar>rat_of_int (round_half_even y) - y\<bar> \<le> 1 / 2"
proof -
  have "rat_of_int \<lfloor>y\<rfloor> \<le> y" and "y < rat_of_int \<lfloor>y\<rfloor> + 1"
    by linarith+
  then show ?thesis
    by (auto simp add: round_half_even_def Let_def)
qed

lemma fl_round_error:
  assumes "x \<noteq> 0" and "emin \<le> ilog2 x"
  shows "\<bar>fl_round p emin x - x\<bar> \<le> \<bar>x\<bar> * 2 powi (- int p)"
proof -
  let ?q = "2 powi (ilog2 x - int p + 1) :: rat"
  have q: "0 < ?q" by simp
  have m: "max (ilog2 x) emin = ilog2 x" using assms(2) by simp
  have "fl_round p emin x - x = (rat_of_int (round_half_even (x / ?q)) - x / ?q) * ?q"
    using assms(1) q by (simp add: fl_round_def m Let_def algebra_simps)
  then have "\<bar>fl_round p emin x - x\<bar> = \<bar>rat_of_int (round_half_even (x / ?q)) - x / ?q\<bar> * ?q"
    using q by (simp add: abs_mult)
  also have "\<dots> \<le> (1 / 2) * ?q"
    using round_half_even_error [of "x / ?q"] q by (simp add: mult_right_mono)
  also have "\<dots> = 2 powi (ilog2 x) * 2 powi (- int p)"
  proof -
    have "ilog2 x - int p + 1 = ilog2 x + (- int p) + 1" by simp
    then have "?q = 2 powi (ilog2 x + (- int p) + 1)" by (rule arg_cong)
    also have "\<dots> = 2 powi (ilog2 x) * 2 powi (- int p) * 2"
      by (simp only: pow2_add power_int_1_right)
    finally show ?thesis by simp
  qed
  also have "\<dots> \<le> \<bar>x\<bar> * 2 powi (- int p)"
    using ilog2_bounds(1) [OF assms(1)] by (simp add: mult_right_mono)
  finally show ?thesis .
qed

lemma pow2_mono: "a \<le> b \<Longrightarrow> (2::rat) powi a \<le> 2 powi b"
  by (rule power_int_increasing) simp_all

lemma pow2_strict_mono: "a < b \<Longrightarrow> (2::rat) powi a < 2 powi b"
  by (rule power_int_strict_increasing) simp_all

lemma ilog2_ge:
  assumes "2 powi e \<le> \<bar>x\<bar>"
  shows "e \<le> ilog2 x"
proof (rule ccontr)
  assume "\<not> e \<le> ilog2 x"
  then have "ilog2 x + 1 \<le> e" by simp
  then have "(2::rat) powi (ilog2 x + 1) \<le> 2 powi e" by (rule pow2_mono)
  moreover have "(0::rat) < 2 powi e" by simp
  then have "0 < \<bar>x\<bar>" using assms by (rule less_le_trans)
  then have "x \<noteq> 0" by simp
  ultimately show False using ilog2_bounds(2) [of x] assms by linarith
qed

lemma ilog2_le:
  assumes "x \<noteq> 0" and "\<bar>x\<bar> < 2 powi (e + 1)"
  shows "ilog2 x \<le> e"
proof (rule ccontr)
  assume "\<not> ilog2 x \<le> e"
  then have "e + 1 \<le> ilog2 x" by simp
  then have "(2::rat) powi (e + 1) \<le> 2 powi (ilog2 x)" by (rule pow2_mono)
  then show False using ilog2_bounds(1) [OF assms(1)] assms(2) by linarith
qed

lemma double_error:
  assumes "2 powi (- 1022) \<le> \<bar>x\<bar>" and "\<bar>x\<bar> \<le> 2 powi 1000"
  shows "\<exists>r. double x = Num r \<and> \<bar>r - x\<bar> \<le> \<bar>x\<bar> / 2 ^ 53"
proof -
  let ?r = "fl_round 53 (- 1022) x"
  have "(0::rat) < 2 powi (- 1022)" by simp
  then have "0 < \<bar>x\<bar>" using assms(1) by (rule less_le_trans)
  then have x: "x \<noteq> 0" by simp
  have e: "- 1022 \<le> ilog2 x" using assms(1) by (rule ilog2_ge)
  have "\<bar>?r - x\<bar> \<le> \<bar>x\<bar> * 2 powi (- int 53)"
    using x e by (rule fl_round_error)
  then have err: "\<bar>?r - x\<bar> \<le> \<bar>x\<bar> / 2 ^ 53"
    by (simp add: power_int_minus field_simps)
  have "\<bar>?r\<bar> \<le> \<bar>x\<bar> + \<bar>x\<bar> / 2 ^ 53" using err by linarith
  also have "\<dots> \<le> \<bar>x\<bar> + \<bar>x\<bar>" by (simp add: field_simps)
  also have "\<dots> \<le> 2 powi 1000 + 2 powi 1000" using assms(2) by linarith
  also have "\<dots> < 2 powi (1023 + 1)" by simp
  finally have "?r = 0 \<or> ilog2 ?r \<le> 1023"
    using ilog2_le [of ?r 1023] by blast
  then have "double x = Num ?r"
    by (auto simp add: double_def to_format_def Let_def)
  with err show ?thesis by blast
qed

lemma fl_round_error_abs:
  "\<bar>fl_round p emin x - x\<bar> \<le> \<bar>x\<bar> * 2 powi (- int p) + 2 powi (emin - int p)"
proof (cases "x = 0")
  case True
  then show ?thesis by (simp add: fl_round_def)
next
  case x: False
  show ?thesis
  proof (cases "emin \<le> ilog2 x")
    case True
    have "(0::rat) \<le> 2 powi (emin - int p)" by simp
    with fl_round_error [OF x True, of p] show ?thesis by linarith
  next
    case False
    let ?q = "2 powi (emin - int p + 1) :: rat"
    have q: "0 < ?q" by simp
    have m: "max (ilog2 x) emin = emin" using False by simp
    have "fl_round p emin x - x = (rat_of_int (round_half_even (x / ?q)) - x / ?q) * ?q"
      using x q by (simp add: fl_round_def m Let_def algebra_simps)
    then have "\<bar>fl_round p emin x - x\<bar> = \<bar>rat_of_int (round_half_even (x / ?q)) - x / ?q\<bar> * ?q"
      using q by (simp add: abs_mult)
    also have "\<dots> \<le> (1 / 2) * ?q"
      using round_half_even_error [of "x / ?q"] q by (simp add: mult_right_mono)
    also have "\<dots> = 2 powi (emin - int p)"
      by (simp add: pow2_add)
    also have "\<dots> \<le> \<bar>x\<bar> * 2 powi (- int p) + 2 powi (emin - int p)"
      by simp
    finally show ?thesis .
  qed
qed

lemma double_abs_error:
  assumes "\<bar>x\<bar> \<le> 512"
  shows "\<exists>r. double x = Num r \<and> \<bar>r - x\<bar> \<le> 1 / 2 ^ 43"
proof -
  let ?r = "fl_round 53 (- 1022) x"
  have "\<bar>?r - x\<bar> \<le> \<bar>x\<bar> * 2 powi (- int 53) + 2 powi (- 1022 - int 53)"
    by (rule fl_round_error_abs)
  also have "\<dots> \<le> 512 * 2 powi (- int 53) + 2 powi (- 1022 - int 53)"
    using assms by (simp add: mult_right_mono)
  also have "\<dots> \<le> 1 / 2 ^ 43"
    by (simp add: power_int_minus field_simps)
  finally have err: "\<bar>?r - x\<bar> \<le> 1 / 2 ^ 43" .
  have "\<bar>?r\<bar> \<le> \<bar>x\<bar> + 1 / 2 ^ 43" using err by linarith
  also have "\<dots> < 2 powi (1023 + 1)" using assms by simp
  finally have "?r = 0 \<or> ilog2 ?r \<le> 1023"
    using ilog2_le [of ?r 1023] by blast
  then have "double x = Num ?r"
    by (auto simp add: double_def to_format_def Let_def)
  with err show ?thesis by blast
qed

lemma float32_abs_error:
  assumes "\<bar>x\<bar> \<le> 256"
  shows "\<exists>r. float32 x = Num r \<and> \<bar>r - x\<bar> \<le> 1 / 2 ^ 16 + 1 / 2 ^ 150"
proof -
  let ?r = "fl_round 24 (- 126) x"
  have "\<bar>?r - x\<bar> \<le> \<bar>x\<bar> * 2 powi (- int 24) + 2 powi (- 126 - int 24)"
    by (rule fl_round_error_abs)
  also have "\<dots> \<le> 256 * 2 powi (- int 24) + 2 powi (- 126 - int 24)"
    using assms by (simp add: mult_right_mono)
  also have "\<dots> = 1 / 2 ^ 16 + 1 / 2 ^ 150"
    by (simp add: power_int_minus field_simps)
  finally have err: "\<bar>?r - x\<bar> \<le> 1 / 2 ^ 16 + 1 / 2 ^ 150" .
  have "\<bar>?r\<bar> \<le> \<bar>x\<bar> + (1 / 2 ^ 16 + 1 / 2 ^ 150)" using err by linarith
  also have "\<dots> < 2 powi (127 + 1)" using assms by simp
  finally have "?r = 0 \<or> ilog2 ?r \<le> 127"
    using ilog2_le [of ?r 127] by blast
  then have "float32 x = Num ?r"
    by (auto simp add: float32_def to_format_def Let_def)
  with err show ?thesis by blast
qed

lemma approx_Num: "approx (Num x) x 0"
  by (simp add: approx_def)

lemma approx_weaken: "approx v x e \<Longrightarrow> e \<le> e' \<Longrightarrow> approx v x e'"
  by (auto simp add: approx_def)

lemma approx_double:
  "\<bar>x\<bar> \<le> 512 \<Longrightarrow> approx (double x) x (1 / 2 ^ 43)"
  using double_abs_error [of x] by (simp add: approx_def)

lemma approx_add:
  assumes "approx a x ea" and "approx b y eb" and "\<bar>x\<bar> + ea + \<bar>y\<bar> + eb \<le> 512"
  shows "approx (js_add a b) (x + y) (ea + eb + 1 / 2 ^ 43)"
proof -
  from assms(1) obtain r1 where a: "a = Num r1" and e1: "\<bar>r1 - x\<bar> \<le> ea" by (auto simp: approx_def)
  from assms(2) obtain r2 where b: "b = Num r2" and e2: "\<bar>r2 - y\<bar> \<le> eb" by (auto simp: approx_def)
  have "\<bar>r1 + r2\<bar> \<le> 512" using e1 e2 assms(3) by linarith
  then obtain r where r: "double (r1 + r2) = Num r" and e: "\<bar>r - (r1 + r2)\<bar> \<le> 1 / 2 ^ 43"
    using double_abs_error by blast
  have "\<bar>r - (x + y)\<bar> \<le> ea + eb + 1 / 2 ^ 43" using e e1 e2 by linarith
  then show ?thesis by (simp add: approx_def a b r)
qed

lemma approx_sub:
  assumes "approx a x ea" and "approx b y eb" and "\<bar>x\<bar> + ea + \<bar>y\<bar> + eb \<le> 512"
  shows "approx (js_sub a b) (x - y) (ea + eb + 1 / 2 ^ 43)"
proof -
  from assms(2) have "approx (js_neg b) (- y) eb"
    by (auto simp: approx_def)
  from approx_add [OF assms(1) this] assms(3) show ?thesis
    by (simp add: js_sub_def)
qed

lemma approx_mul:
  assumes "approx a x ea" and "approx b y eb" and "\<bar>x\<bar> \<le> X" and "\<bar>y\<bar> \<le> Y"
    and "(X + ea) * (Y + eb) \<le> 512"
  shows "approx (js_mul a b) (x * y) ((X + ea) * eb + Y * ea + 1 / 2 ^ 43)"
proof -
  from assms(1) obtain r1 where a: "a = Num r1" and e1: "\<bar>r1 - x\<bar> \<le> ea" by (auto simp: approx_def)
  from assms(2) obtain r2 where b: "b = Num r2" and e2: "\<bar>r2 - y\<bar> \<le> eb" by (auto simp: approx_def)
  have ea: "0 \<le> ea" using e1 by linarith
  have eb: "0 \<le> eb" using e2 by linarith
  have X: "0 \<le> X" using assms(3) by linarith
  have Y: "0 \<le> Y" using assms(4) by linarith
  have b1: "\<bar>r1\<bar> \<le> X + ea" using e1 assms(3) by linarith
  have b2: "\<bar>r2\<bar> \<le> Y + eb" using e2 assms(4) by linarith
  have "\<bar>r1 * r2\<bar> = \<bar>r1\<bar> * \<bar>r2\<bar>" by (rule abs_mult)
  also have "\<dots> \<le> (X + ea) * (Y + eb)" using b1 b2 by (intro mult_mono) simp_all
  finally have "\<bar>r1 * r2\<bar> \<le> 512" using assms(5) by linarith
  then obtain r where r: "double (r1 * r2) = Num r" and e: "\<bar>r - r1 * r2\<bar> \<le> 1 / 2 ^ 43"
    using double_abs_error by blast
  have "r1 * r2 - x * y = r1 * (r2 - y) + y * (r1 - x)" by (simp add: algebra_simps)
  then have "\<bar>r1 * r2 - x * y\<bar> \<le> \<bar>r1 * (r2 - y)\<bar> + \<bar>y * (r1 - x)\<bar>" by simp
  also have "\<dots> = \<bar>r1\<bar> * \<bar>r2 - y\<bar> + \<bar>y\<bar> * \<bar>r1 - x\<bar>" by (simp add: abs_mult)
  also have "\<dots> \<le> (X + ea) * eb + Y * ea"
    using b1 e2 e1 assms(4) ea eb X Y by (intro add_mono mult_mono) simp_all
  finally have "\<bar>r - x * y\<bar> \<le> (X + ea) * eb + Y * ea + 1 / 2 ^ 43" using e by linarith
  then show ?thesis by (simp add: approx_def a b r)
qed

section \<open>Properties of the resize step\<close>

lemma canvas_dimension_int:
  "0 \<le> k \<Longrightarrow> k \<le> 2147483647 \<Longrightarrow> canvas_dimension dflt (Num (rat_of_int k)) = nat k"
  by (simp add: canvas_dimension_def)

lemma Math_max_1_int: "Math_max (Num 1) (Num (rat_of_int R)) = Num (rat_of_int (max 1 R))"
  by (auto simp: Math_max_def max_def)

lemma targetHeight_of_bound:
  fixes w h tw :: nat
  assumes w: "1 \<le> w" "w < 2 ^ 31" and h: "1 \<le> h" and tw: "1 \<le> tw" "tw < 2 ^ 31"
    and out: "h * tw \<le> 2 ^ 30 * w"
  shows "\<exists>H. targetHeight_of \<lparr>cv_width = w, cv_height = h, cv_pixels = px\<rparr> (Num (of_nat tw))
              = Num (rat_of_int H) \<and>
             1 \<le> H \<and> H \<le> 2 ^ 30 + 1 \<and>
             \<bar>rat_of_int H - of_nat h * of_nat tw / of_nat w\<bar> \<le> 1"
proof -
  let ?w = "rat_of_nat w" and ?h = "rat_of_nat h" and ?tw = "rat_of_nat tw"
  define x1 where "x1 = ?tw / ?w"
  define X where "X = ?h * ?tw / ?w"
  have X: "X = ?h * x1" by (simp add: X_def x1_def)
  have wpos: "1 \<le> ?w" and hpos: "1 \<le> ?h" and twpos: "1 \<le> ?tw"
    using w(1) h tw(1) by simp_all
  have "rat_of_nat w < rat_of_nat (2 ^ 31)" and "rat_of_nat tw < rat_of_nat (2 ^ 31)"
    using w(2) tw(2) by (simp_all only: of_nat_less_iff)
  then have wlt: "?w \<le> 2 ^ 31" and twlt: "?tw \<le> 2 ^ 31"
    by simp_all
  have "rat_of_nat (h * tw) \<le> rat_of_nat (2 ^ 30 * w)"
    using out by (simp only: of_nat_le_iff)
  then have "?h * ?tw \<le> 2 ^ 30 * ?w" by simp
  then have Xle: "X \<le> 2 ^ 30"
    using wpos by (simp add: X_def pos_divide_le_eq)
  have x1pos: "0 < x1" using wpos twpos by (simp add: x1_def)
  have Xpos: "0 < X" using hpos x1pos by (simp add: X)
  have x1lo: "1 / 2 ^ 31 \<le> x1"
    unfolding x1_def using wpos wlt twpos by (intro frac_le) simp_all
  have x1hi: "x1 \<le> 2 ^ 31"
  proof -
    have "?tw / ?w \<le> ?tw / 1" using wpos twpos by (intro divide_left_mono) simp_all
    then show ?thesis using twlt by (simp add: x1_def)
  qed
  have tiny: "2 powi (- 1022) \<le> (1 / 2 ^ 32 :: rat)"
    by (simp add: power_int_minus field_simps)
  have "(1 / 2 ^ 32 :: rat) \<le> 1 / 2 ^ 31" by simp
  then have "2 powi (- 1022) \<le> \<bar>x1\<bar>" using x1lo x1pos tiny by linarith
  moreover have "(2 ^ 31 :: rat) \<le> 2 powi 1000" by simp
  then have "\<bar>x1\<bar> \<le> 2 powi 1000" using x1hi x1pos by linarith
  ultimately obtain r1 where r1: "double x1 = Num r1" and e1: "\<bar>r1 - x1\<bar> \<le> \<bar>x1\<bar> / 2 ^ 53"
    using double_error by blast
  have div: "js_div (Num ?tw) (Num ?w) = Num r1"
    using wpos r1 by (simp add: x1_def)
  have u: "\<And>a::rat. 0 < a \<Longrightarrow> a / 2 ^ 53 \<le> a / 2"
    by (simp add: field_simps)
  have e1': "\<bar>r1 - x1\<bar> \<le> x1 / 2 ^ 53" using e1 x1pos by simp
  have e1'': "\<bar>r1 - x1\<bar> \<le> x1 / 2" using e1' u [OF x1pos] by linarith
  have r1lo: "x1 / 2 \<le> r1" and r1hi: "r1 \<le> 2 * x1"
    using e1'' x1pos by linarith+
  have r1pos: "0 < r1" using r1lo x1pos by linarith
  define x2 where "x2 = ?h * r1"
  have x2pos: "0 < x2" using hpos r1pos by (simp add: x2_def)
  have x2lo: "1 / 2 ^ 32 \<le> x2"
  proof -
    have "1 / 2 ^ 32 \<le> x1 / 2" using x1lo by simp
    also have "\<dots> \<le> r1" by (rule r1lo)
    also have "\<dots> \<le> ?h * r1" using hpos r1pos by simp
    finally show ?thesis by (simp add: x2_def)
  qed
  have x2hi: "x2 \<le> 2 * X"
  proof -
    have "?h * r1 \<le> ?h * (2 * x1)" using r1hi hpos by (intro mult_left_mono) simp_all
    then show ?thesis by (simp add: x2_def X)
  qed
  have "2 powi (- 1022) \<le> \<bar>x2\<bar>" using x2lo x2pos tiny by linarith
  moreover have "(2 * 2 ^ 30 :: rat) \<le> 2 powi 1000" by simp
  then have "\<bar>x2\<bar> \<le> 2 powi 1000" using x2hi Xle x2pos by linarith
  ultimately obtain r2 where r2: "double x2 = Num r2" and e2: "\<bar>r2 - x2\<bar> \<le> \<bar>x2\<bar> / 2 ^ 53"
    using double_error by blast
  have mul: "js_mul (Num ?h) (Num r1) = Num r2"
    using r2 by (simp add: x2_def)
  have e2': "\<bar>r2 - x2\<bar> \<le> 2 * X / 2 ^ 53"
  proof -
    have "\<bar>x2\<bar> / 2 ^ 53 \<le> 2 * X / 2 ^ 53" using x2hi x2pos by (simp add: divide_right_mono)
    with e2 show ?thesis by linarith
  qed
  have e3: "\<bar>x2 - X\<bar> \<le> X / 2 ^ 53"
  proof -
    have "x2 - X = ?h * (r1 - x1)" by (simp add: x2_def X algebra_simps)
    then have "\<bar>x2 - X\<bar> = ?h * \<bar>r1 - x1\<bar>" using hpos by (simp add: abs_mult)
    also have "\<dots> \<le> ?h * (x1 / 2 ^ 53)" using e1' hpos by (intro mult_left_mono) simp_all
    finally show ?thesis by (simp add: X)
  qed
  have "3 * X / 2 ^ 53 \<le> 3 * 2 ^ 30 / 2 ^ 53" using Xle by (simp add: divide_right_mono)
  also have "\<dots> \<le> (1 / 4 :: rat)" by simp
  finally have small: "3 * X / 2 ^ 53 \<le> 1 / 4" .
  have "\<bar>r2 - X\<bar> \<le> \<bar>r2 - x2\<bar> + \<bar>x2 - X\<bar>" by simp
  also have "\<dots> \<le> 2 * X / 2 ^ 53 + X / 2 ^ 53" using e2' e3 by linarith
  also have "\<dots> = 3 * X / 2 ^ 53" by simp
  finally have close: "\<bar>r2 - X\<bar> \<le> 1 / 4" using small by linarith
  define R where "R = \<lfloor>r2 + 1 / 2\<rfloor>"
  define H where "H = max 1 R"
  have R1: "rat_of_int R \<le> r2 + 1 / 2" and R2: "r2 + 1 / 2 < rat_of_int R + 1"
    unfolding R_def by linarith+
  have "targetHeight_of \<lparr>cv_width = w, cv_height = h, cv_pixels = px\<rparr> (Num ?tw)
          = Math_max (Num 1) (Math_round (js_mul (Num ?h) (js_div (Num ?tw) (Num ?w))))"
    by (simp add: targetHeight_of_def Let_def del: js_div.simps js_mul.simps)
  also have "\<dots> = Math_max (Num 1) (Math_round (Num r2))"
    by (simp only: div mul)
  also have "\<dots> = Math_max (Num 1) (Num (rat_of_int R))"
    by (simp add: R_def)
  also have "\<dots> = Num (rat_of_int H)"
    unfolding H_def by (rule Math_max_1_int)
  finally have th: "targetHeight_of \<lparr>cv_width = w, cv_height = h, cv_pixels = px\<rparr> (Num ?tw)
          = Num (rat_of_int H)" .
  have H1: "1 \<le> H" by (simp add: H_def)
  have Herr: "\<bar>rat_of_int H - X\<bar> \<le> 1"
  proof (cases "1 \<le> R")
    case True
    then have "H = R" by (simp add: H_def)
    then show ?thesis using R1 R2 close by linarith
  next
    case False
    then have H: "H = 1" by (simp add: H_def)
    from False have "R \<le> 0" by simp
    then have "rat_of_int R \<le> 0" by simp
    then have "r2 < 1 / 2" using R2 by linarith
    then have "X < 1" using close by linarith
    then show ?thesis using Xpos by (simp add: H)
  qed
  have "rat_of_int H \<le> rat_of_int (2 ^ 30 + 1)" using Herr Xle by simp
  then have Hhi: "H \<le> 2 ^ 30 + 1"
    by (simp only: of_int_le_iff)
  from th H1 Hhi Herr show ?thesis unfolding X_def by blast
qed

lemma widthDots_positive: "1 \<le> tw \<Longrightarrow> widthDots_or_384 (Some (Num (rat_of_nat tw))) = Num (rat_of_nat tw)"
  by (simp add: widthDots_or_384_def js_truthy_def)


lemma targetHeight_2816_55:
  "targetHeight_of \<lparr>cv_width = 2816, cv_height = 55, cv_pixels = []\<rparr> (Num 384) = Num 7"
proof -
  have d: "js_div (Num 384) (Num 2816) = Num (1228254443828317 / 9007199254740992)"
    by code_simp
  have m: "js_mul (Num 55) (Num (1228254443828317 / 9007199254740992))
             = Num (8444249301319679 / 1125899906842624)"
    by code_simp
  have r: "Math_max (Num 1) (Math_round (Num (8444249301319679 / 1125899906842624))) = Num 7"
    by code_simp
  show ?thesis
    by (simp add: targetHeight_of_def Let_def d m r del: js_div.simps js_mul.simps Math_round.simps)
qed


lemma canvas_dimension_numeral:
  "canvas_dimension dflt (Num 384) = 384" "canvas_dimension dflt (Num 7) = 7"
  "canvas_dimension dflt (Num 192) = 192"
  by (simp_all add: canvas_dimension_def)

text \<open>
  C7 as stated fails: for a source of 2816 by 55 pixels and the target width 384 the exact
  height is \<open>55 * 384 / 2816 = 7.5\<close>, which rounds to 8, but the code first rounds
  \<open>384 / 2816\<close> to a double and then the product, gets a value just below 7.5 and returns a
  canvas of height 7.
\<close>

theorem resize_height_counterexample:
  "printElementToPrinter_resize no_pixels (Some (Num 384))
       \<lparr>cv_width = 2816, cv_height = 55, cv_pixels = []\<rparr>
     = Inr \<lparr>cv_width = 384, cv_height = 7, cv_pixels = []\<rparr> \<and>
   max 1 (round (55 * 384 / 2816 :: rat)) = 8"
proof -
  have "round (55 * 384 / 2816 :: rat) = 8"
    by (simp add: round_def)
  then show ?thesis
    by (simp add: printElementToPrinter_resize_def widthDots_or_384_def js_truthy_def Let_def
        targetHeight_2816_55 resizeCanvasNearest_def canvas_dimension_numeral no_pixels_def)
qed

text \<open>
  C7, amended. For a source of width and height at least 1 and a positive integral target
  width (all below \<open>2^31\<close>, as the dimensions of a canvas are, and with
  \<open>height * target / width\<close> at most \<open>2^30\<close>), the resize step of both print flows returns
  a canvas whose width is the target width and whose height is
  \<^verbatim>\<open>Math.max(1, Math.round(height * (target / width)))\<close> as computed in double arithmetic; that
  height is within 1 of the exact \<open>height * target / width\<close>.
\<close>

theorem resize_dimensions:
  assumes "1 \<le> cv_width src" and "cv_width src < 2 ^ 31" and "1 \<le> cv_height src"
    and "1 \<le> tw" and "tw < 2 ^ 31"
    and "cv_height src * tw \<le> 2 ^ 30 * cv_width src"
  shows "\<exists>c. printElementToPrinter_resize drawImage (Some (Num (rat_of_nat tw))) src = Inr c \<and>
             printPaperToThermal_resize drawImage (Some (Num (rat_of_nat tw))) src = Inr c \<and>
             cv_width c = tw \<and>
             Num (rat_of_nat (cv_height c)) = targetHeight_of src (Num (rat_of_nat tw)) \<and>
             \<bar>rat_of_nat (cv_height c)
                - rat_of_nat (cv_height src) * rat_of_nat tw / rat_of_nat (cv_width src)\<bar> \<le> 1"
proof -
  have src: "src = \<lparr>cv_width = cv_width src, cv_height = cv_height src, cv_pixels = cv_pixels src\<rparr>"
    by simp
  obtain H where th: "targetHeight_of src (Num (rat_of_nat tw)) = Num (rat_of_int H)"
    and H: "1 \<le> H" "H \<le> 2 ^ 30 + 1"
    and err: "\<bar>rat_of_int H - rat_of_nat (cv_height src) * rat_of_nat tw / rat_of_nat (cv_width src)\<bar> \<le> 1"
    using targetHeight_of_bound [OF assms, of "cv_pixels src"] by (simp only: src [symmetric]) blast
  let ?c = "\<lparr>cv_width = tw, cv_height = nat H,
             cv_pixels = drawImage src tw (nat H)\<rparr>"
  have w: "canvas_dimension 300 (Num (rat_of_nat tw)) = tw"
    using canvas_dimension_int [of "int tw" 300] assms(5) by simp
  have h: "canvas_dimension 150 (Num (rat_of_int H)) = nat H"
    using H by (intro canvas_dimension_int) simp_all
  have r: "resizeCanvasNearest drawImage src (Num (rat_of_nat tw)) (Num (rat_of_int H)) = Inr ?c"
    using assms(1,3) by (simp add: resizeCanvasNearest_def Let_def w h)
  have 1: "printElementToPrinter_resize drawImage (Some (Num (rat_of_nat tw))) src = Inr ?c"
    by (simp add: printElementToPrinter_resize_def Let_def widthDots_positive [OF assms(4)] th r)
  have 2: "printPaperToThermal_resize drawImage (Some (Num (rat_of_nat tw))) src = Inr ?c"
    using assms(1,3)
    by (simp add: printPaperToThermal_resize_def Let_def widthDots_positive [OF assms(4)] th r)
  have 3: "rat_of_nat (nat H) = rat_of_int H" using H by simp
  show ?thesis
    using 1 2 th err by (intro exI [of _ ?c]) (simp add: 3)
qed

theorem resize_dimensions_witness:
  "\<exists>c. printElementToPrinter_resize no_pixels (Some (Num (rat_of_nat 384)))
            \<lparr>cv_width = 2816, cv_height = 55, cv_pixels = []\<rparr> = Inr c \<and>
       printPaperToThermal_resize no_pixels (Some (Num (rat_of_nat 384)))
            \<lparr>cv_width = 2816, cv_height = 55, cv_pixels = []\<rparr> = Inr c \<and>
       cv_width c = 384 \<and>
       Num (rat_of_nat (cv_height c))
         = targetHeight_of \<lparr>cv_width = 2816, cv_height = 55, cv_pixels = []\<rparr> (Num (rat_of_nat 384)) \<and>
       \<bar>rat_of_nat (cv_height c)
          - rat_of_nat (cv_height \<lparr>cv_width = 2816, cv_height = 55, cv_pixels = []\<rparr>) * rat_of_nat 384
            / rat_of_nat (cv_width \<lparr>cv_width = 2816, cv_height = 55, cv_pixels = []\<rparr>)\<bar> \<le> 1"
  by (rule resize_dimensions) simp_all



section \<open>Properties of the Luminance Converter\<close>

declare grayscaleImageData_loop.simps [simp del]

lemma grayscale_loop_step:
  "i < length dat \<Longrightarrow>
   grayscaleImageData_loop dat i p gray =
     grayscaleImageData_loop dat (i + 4) (p + 1)
       (gray[p := pixel_gray (sample dat i) (sample dat (i + 1)) (sample dat (i + 2)) (sample dat (i + 3))])"
  by (subst grayscaleImageData_loop.simps)
     (simp add: Let_def pixel_gray_def luminance_def composite_over_white_def
        del: js_add.simps js_mul.simps js_div.simps)

lemma grayscale_loop_stop:
  "\<not> i < length dat \<Longrightarrow> grayscaleImageData_loop dat i p gray = gray"
  by (subst grayscaleImageData_loop.simps) simp

lemma grayscale_loop_length:
  "length (grayscaleImageData_loop dat i p gray) = length gray"
proof (induction "length dat - i" arbitrary: i p gray rule: less_induct)
  case less
  show ?case
  proof (cases "i < length dat")
    case False
    then show ?thesis by (simp add: grayscale_loop_stop)
  next
    case True
    then have "length dat - (i + 4) < length dat - i" by simp
    from less [OF this] True show ?thesis by (simp add: grayscale_loop_step)
  qed
qed

lemma grayscale_loop_nth:
  "i = 4 * p \<Longrightarrow> q < length gray \<Longrightarrow>
   grayscaleImageData_loop dat i p gray ! q =
     (if p \<le> q \<and> 4 * q < length dat
      then pixel_gray (sample dat (4 * q)) (sample dat (4 * q + 1)) (sample dat (4 * q + 2))
             (sample dat (4 * q + 3))
      else gray ! q)"
proof (induction "length dat - i" arbitrary: i p gray rule: less_induct)
  case less
  let ?px = "\<lambda>q. pixel_gray (sample dat (4 * q)) (sample dat (4 * q + 1)) (sample dat (4 * q + 2))
             (sample dat (4 * q + 3))"
  show ?case
  proof (cases "i < length dat")
    case False
    with less.prems(1) have "\<not> (p \<le> q \<and> 4 * q < length dat)" by auto
    with False show ?thesis by (auto simp add: grayscale_loop_stop)
  next
    case True
    let ?gray' = "gray[p := ?px p]"
    have m: "length dat - (i + 4) < length dat - i" using True by simp
    have i4: "i + 4 = 4 * (p + 1)" using less.prems(1) by simp
    have len: "q < length ?gray'" using less.prems(2) by simp
    have "grayscaleImageData_loop dat i p gray ! q =
            grayscaleImageData_loop dat (i + 4) (p + 1) ?gray' ! q"
      using True less.prems(1) by (simp add: grayscale_loop_step add.assoc)
    also have "\<dots> = (if p + 1 \<le> q \<and> 4 * q < length dat then ?px q else ?gray' ! q)"
      by (rule less.hyps [OF m i4 len])
    also have "\<dots> = (if p \<le> q \<and> 4 * q < length dat then ?px q else gray ! q)"
    proof (cases "q = p")
      case True
      with \<open>i < length dat\<close> less.prems show ?thesis by simp
    next
      case False
      then have "?gray' ! q = gray ! q" by simp
      with False show ?thesis by auto
    qed
    finally show ?thesis .
  qed
qed

lemma sample_in_range: "i < length dat \<Longrightarrow> sample dat i = byte_num (dat ! i)"
  by (simp add: sample_def typed_get_def byte_num_def)

lemma pixel_gray_white: "pixel_gray (Num 255) (Num 255) (Num 255) (Num 255) = Num 255"
  by code_simp

lemma pixel_gray_black: "pixel_gray (Num 0) (Num 0) (Num 0) (Num 255) = Num 0"
  by code_simp

lemma pixel_gray_half_black:
  "pixel_gray (Num 0) (Num 0) (Num 0) (Num 128) = Num 127"
  "pixel_gray (Num 0) (Num 0) (Num 0) (Num 127) = Num 128"
  by code_simp+

lemma composite_exact_range:
  assumes "0 \<le> c" and "c \<le> 255" and "0 \<le> a" and "a \<le> 255"
  shows "0 \<le> composite_exact c a" and "composite_exact c a \<le> 255"
proof -
  define t where "t = a / 255"
  have t: "0 \<le> t" "t \<le> 1" using assms(3,4) by (simp_all add: t_def)
  have e: "composite_exact c a = c * t + 255 * (1 - t)" by (simp add: composite_exact_def t_def)
  have "0 \<le> c * t" using assms(1) t(1) by simp
  moreover have "0 \<le> 255 * (1 - t)" using t(2) by simp
  ultimately show "0 \<le> composite_exact c a" unfolding e by linarith
  have "c * t \<le> 255 * t" using assms(2) t(1) by (rule mult_right_mono)
  then show "composite_exact c a \<le> 255" unfolding e by (simp add: algebra_simps)
qed

lemma alpha_approx:
  assumes "0 \<le> a" and "a \<le> 255"
  shows "approx (js_div (Num a) (Num 255)) (a / 255) (1 / 2 ^ 43)"
proof -
  have "\<bar>a / 255\<bar> \<le> 512" using assms by simp
  then show ?thesis using approx_double [of "a / 255"] by simp
qed

lemma composite_approx:
  assumes c: "0 \<le> c" "c \<le> 255" and a: "0 \<le> a" "a \<le> 255"
    and alpha: "approx alpha (a / 255) (1 / 2 ^ 43)"
  shows "approx (composite_over_white (Num c) alpha) (composite_exact c a) (1 / 2 ^ 33)"
proof -
  have t: "\<bar>a / 255\<bar> \<le> 1" using a by simp
  have t': "\<bar>1 - a / 255\<bar> \<le> 1" using a by simp
  have "approx (js_mul (Num c) alpha) (c * (a / 255)) ((255 + 0) * (1 / 2 ^ 43) + 1 * 0 + 1 / 2 ^ 43)"
    using approx_Num alpha _ t by (rule approx_mul) (use c in simp_all)
  then have m1: "approx (js_mul (Num c) alpha) (c * (a / 255)) (1 / 2 ^ 35)"
    by (rule approx_weaken) simp
  have "approx (js_sub (Num 1) alpha) (1 - a / 255) (0 + 1 / 2 ^ 43 + 1 / 2 ^ 43)"
    using approx_Num alpha by (rule approx_sub) (use t in simp)
  then have s: "approx (js_sub (Num 1) alpha) (1 - a / 255) (1 / 2 ^ 42)"
    by (rule approx_weaken) simp
  have "approx (js_mul (Num 255) (js_sub (Num 1) alpha)) (255 * (1 - a / 255))
          ((255 + 0) * (1 / 2 ^ 42) + 1 * 0 + 1 / 2 ^ 43)"
    using approx_Num s _ t' by (rule approx_mul) simp_all
  then have m2: "approx (js_mul (Num 255) (js_sub (Num 1) alpha)) (255 * (1 - a / 255)) (1 / 2 ^ 34)"
    by (rule approx_weaken) simp
  have b1: "\<bar>c * (a / 255)\<bar> \<le> 255"
  proof -
    have "\<bar>c * (a / 255)\<bar> = c * (a / 255)" using c a by simp
    also have "\<dots> \<le> 255 * 1" using c a by (intro mult_mono) simp_all
    finally show ?thesis by simp
  qed
  have b2: "\<bar>255 * (1 - a / 255)\<bar> \<le> 255" using a by simp
  have "approx (js_add (js_mul (Num c) alpha) (js_mul (Num 255) (js_sub (Num 1) alpha)))
          (c * (a / 255) + 255 * (1 - a / 255)) (1 / 2 ^ 35 + 1 / 2 ^ 34 + 1 / 2 ^ 43)"
    using m1 m2 by (rule approx_add) (use b1 b2 in simp)
  then show ?thesis
    unfolding composite_over_white_def composite_exact_def by (rule approx_weaken) simp
qed

lemma weight_approx:
  assumes k: "0 \<le> k" "k \<le> 1" and x: "0 \<le> x" "x \<le> 255" and v: "approx v x (1 / 2 ^ 33)"
  shows "approx (js_mul (double k) v) (k * x) (1 / 2 ^ 32)"
proof -
  have "approx (double k) k (1 / 2 ^ 43)" using k by (intro approx_double) simp
  then have "approx (js_mul (double k) v) (k * x)
        ((1 + 1 / 2 ^ 43) * (1 / 2 ^ 33) + 255 * (1 / 2 ^ 43) + 1 / 2 ^ 43)"
    using v by (rule approx_mul) (use k x in simp_all)
  then show ?thesis by (rule approx_weaken) simp
qed

lemma pixel_gray_approx:
  assumes r: "0 \<le> r" "r \<le> 255" and g: "0 \<le> g" "g \<le> 255" and b: "0 \<le> b" "b \<le> 255"
    and a: "0 \<le> a" "a \<le> 255"
  shows "approx (pixel_gray (Num r) (Num g) (Num b) (Num a)) (luminance_exact r g b a) (1 / 2 ^ 15)"
proof -
  let ?alpha = "js_div (Num a) (Num 255)"
  note al = alpha_approx [OF a]
  note R = composite_exact_range [OF r a] and G = composite_exact_range [OF g a]
    and B = composite_exact_range [OF b a]
  have u1: "approx (js_mul (double (299 / 1000)) (composite_over_white (Num r) ?alpha))
              (299 / 1000 * composite_exact r a) (1 / 2 ^ 32)"
    by (rule weight_approx [OF _ _ R composite_approx [OF r a al]]) simp_all
  have u2: "approx (js_mul (double (587 / 1000)) (composite_over_white (Num g) ?alpha))
              (587 / 1000 * composite_exact g a) (1 / 2 ^ 32)"
    by (rule weight_approx [OF _ _ G composite_approx [OF g a al]]) simp_all
  have u3: "approx (js_mul (double (114 / 1000)) (composite_over_white (Num b) ?alpha))
              (114 / 1000 * composite_exact b a) (1 / 2 ^ 32)"
    by (rule weight_approx [OF _ _ B composite_approx [OF b a al]]) simp_all
  have m: "\<bar>299 / 1000 * composite_exact r a\<bar> \<le> 100" "\<bar>587 / 1000 * composite_exact g a\<bar> \<le> 200"
      "\<bar>114 / 1000 * composite_exact b a\<bar> \<le> 100"
    using R G B by simp_all
  have "approx (js_add (js_mul (double (299 / 1000)) (composite_over_white (Num r) ?alpha))
                       (js_mul (double (587 / 1000)) (composite_over_white (Num g) ?alpha)))
          (299 / 1000 * composite_exact r a + 587 / 1000 * composite_exact g a)
          (1 / 2 ^ 32 + 1 / 2 ^ 32 + 1 / 2 ^ 43)"
    using u1 u2 by (rule approx_add) (use m in simp)
  then have "approx (luminance (composite_over_white (Num r) ?alpha) (composite_over_white (Num g) ?alpha)
                       (composite_over_white (Num b) ?alpha))
          (luminance_exact r g b a)
          (1 / 2 ^ 32 + 1 / 2 ^ 32 + 1 / 2 ^ 43 + 1 / 2 ^ 32 + 1 / 2 ^ 43)"
    unfolding luminance_def luminance_exact_def using u3 by (rule approx_add) (use m in simp)
  then obtain t where t: "luminance (composite_over_white (Num r) ?alpha)
        (composite_over_white (Num g) ?alpha) (composite_over_white (Num b) ?alpha) = Num t"
    and et: "\<bar>t - luminance_exact r g b a\<bar> \<le> 1 / 2 ^ 32 + 1 / 2 ^ 32 + 1 / 2 ^ 43 + 1 / 2 ^ 32 + 1 / 2 ^ 43"
    by (auto simp: approx_def)
  have E: "0 \<le> luminance_exact r g b a" "luminance_exact r g b a \<le> 255"
    using R G B by (simp_all add: luminance_exact_def)
  have "(1 / 2 ^ 32 + 1 / 2 ^ 32 + 1 / 2 ^ 43 + 1 / 2 ^ 32 + 1 / 2 ^ 43 :: rat) \<le> 1 / 2 ^ 29"
    by simp
  with et have et': "\<bar>t - luminance_exact r g b a\<bar> \<le> 1 / 2 ^ 29" by (rule order_trans)
  have "(1 / 2 ^ 29 :: rat) \<le> 1" by simp
  with et' E have "\<bar>t\<bar> \<le> 256" by linarith
  then obtain v where v: "float32 t = Num v" and ev: "\<bar>v - t\<bar> \<le> 1 / 2 ^ 16 + 1 / 2 ^ 150"
    using float32_abs_error by blast
  have "(1 / 2 ^ 29 + (1 / 2 ^ 16 + 1 / 2 ^ 150) :: rat) \<le> 1 / 2 ^ 15" by simp
  with et' ev have "\<bar>v - luminance_exact r g b a\<bar> \<le> 1 / 2 ^ 15" by linarith
  then show ?thesis
    by (simp add: pixel_gray_def Let_def t v approx_def del: js_div.simps)
qed

lemma byte_range: "0 \<le> rat_of_int (uint (v :: u8))" "rat_of_int (uint (v :: u8)) \<le> 255"
proof -
  have "0 \<le> uint v" by simp
  then show "0 \<le> rat_of_int (uint v)" by (simp only: of_int_0_le_iff)
  have "uint v < 2 ^ 8" using uint_lt2p [of v] by simp
  then have "uint v \<le> 255" by simp
  then have "rat_of_int (uint v) \<le> rat_of_int 255" by (simp only: of_int_le_iff)
  then show "rat_of_int (uint v) \<le> 255" by simp
qed

lemma luminance_of_pixel_approx:
  "approx (luminance_of_pixel r g b a)
     (luminance_exact (rat_of_int (uint r)) (rat_of_int (uint g)) (rat_of_int (uint b))
        (rat_of_int (uint a)))
     (1 / 2 ^ 15)"
  unfolding luminance_of_pixel_def byte_num_def
  by (rule pixel_gray_approx) (rule byte_range)+

text \<open>
  C5. For a pixel buffer of \<open>width * height\<close> RGBA samples, the output has one value per
  pixel, and the value of pixel \<open>p\<close> is the weighted sum \<open>0.299 R + 0.587 G + 0.114 B\<close> of
  the three channels composited over white, \<open>channel * alpha + 255 * (1 - alpha)\<close> with
  \<open>alpha = A / 255\<close>, in double arithmetic and stored in single precision; it is a finite
  number within \<open>2^-15\<close> of the value of that formula in exact arithmetic. An opaque white
  pixel gives exactly 255, an opaque black pixel exactly 0, and a black pixel of alpha
  128 or 127 (the two bytes next to 50 percent) gives 127 or 128, each within 0.5 of 127.5.
\<close>

theorem grayscaleImageData_formula:
  assumes "length (img_data imgData) = 4 * (img_width imgData * img_height imgData)"
    and "p < img_width imgData * img_height imgData"
  shows "length (gray_values (grayscaleImageData imgData)) = img_width imgData * img_height imgData \<and>
         gray_values (grayscaleImageData imgData) ! p =
           luminance_of_pixel (img_data imgData ! (4 * p)) (img_data imgData ! (4 * p + 1))
             (img_data imgData ! (4 * p + 2)) (img_data imgData ! (4 * p + 3)) \<and>
         approx (gray_values (grayscaleImageData imgData) ! p)
           (luminance_exact (rat_of_int (uint (img_data imgData ! (4 * p))))
              (rat_of_int (uint (img_data imgData ! (4 * p + 1))))
              (rat_of_int (uint (img_data imgData ! (4 * p + 2))))
              (rat_of_int (uint (img_data imgData ! (4 * p + 3)))))
           (1 / 2 ^ 15) \<and>
         luminance_of_pixel 255 255 255 255 = Num 255 \<and>
         luminance_of_pixel 0 0 0 255 = Num 0 \<and>
         luminance_of_pixel 0 0 0 128 = Num 127 \<and>
         luminance_of_pixel 0 0 0 127 = Num 128"
proof (intro conjI)
  let ?dat = "img_data imgData"
  let ?n = "img_width imgData * img_height imgData"
  show "length (gray_values (grayscaleImageData imgData)) = ?n"
    by (simp add: grayscaleImageData_def Let_def grayscale_loop_length)
  have "gray_values (grayscaleImageData imgData) ! p =
          grayscaleImageData_loop ?dat 0 0 (replicate ?n (Num 0)) ! p"
    by (simp add: grayscaleImageData_def Let_def)
  also have "\<dots> = pixel_gray (sample ?dat (4 * p)) (sample ?dat (4 * p + 1))
                        (sample ?dat (4 * p + 2)) (sample ?dat (4 * p + 3))"
    using assms by (subst grayscale_loop_nth) simp_all
  also have "\<dots> = luminance_of_pixel (?dat ! (4 * p)) (?dat ! (4 * p + 1))
                        (?dat ! (4 * p + 2)) (?dat ! (4 * p + 3))"
    using assms by (simp add: luminance_of_pixel_def sample_in_range)
  finally show eq: "gray_values (grayscaleImageData imgData) ! p =
      luminance_of_pixel (?dat ! (4 * p)) (?dat ! (4 * p + 1)) (?dat ! (4 * p + 2)) (?dat ! (4 * p + 3))" .
  show "approx (gray_values (grayscaleImageData imgData) ! p)
           (luminance_exact (rat_of_int (uint (?dat ! (4 * p))))
              (rat_of_int (uint (?dat ! (4 * p + 1))))
              (rat_of_int (uint (?dat ! (4 * p + 2))))
              (rat_of_int (uint (?dat ! (4 * p + 3)))))
           (1 / 2 ^ 15)"
    unfolding eq by (rule luminance_of_pixel_approx)
  show "luminance_of_pixel 255 255 255 255 = Num 255"
    by (simp add: luminance_of_pixel_def byte_num_def pixel_gray_white)
  show "luminance_of_pixel 0 0 0 255 = Num 0"
    by (simp add: luminance_of_pixel_def byte_num_def pixel_gray_black)
  show "luminance_of_pixel 0 0 0 128 = Num 127"
    by (simp add: luminance_of_pixel_def byte_num_def pixel_gray_half_black)
  show "luminance_of_pixel 0 0 0 127 = Num 128"
    by (simp add: luminance_of_pixel_def byte_num_def pixel_gray_half_black)
qed

theorem grayscaleImageData_formula_witness:
  "length (gray_values (grayscaleImageData
      \<lparr>img_data = [255, 255, 255, 255, 0, 0, 0, 255], img_width = 2, img_height = 1\<rparr>)) = 2 \<and>
   gray_values (grayscaleImageData
      \<lparr>img_data = [255, 255, 255, 255, 0, 0, 0, 255], img_width = 2, img_height = 1\<rparr>) ! 1 = Num 0"
proof -
  let ?img = "\<lparr>img_data = [255, 255, 255, 255, 0, 0, 0, 255], img_width = 2, img_height = 1\<rparr>"
  have "length (img_data ?img) = 4 * (img_width ?img * img_height ?img)"
    and "1 < img_width ?img * img_height ?img"
    by simp_all
  from grayscaleImageData_formula [OF this] show ?thesis
    by (simp add: luminance_of_pixel_def byte_num_def pixel_gray_black)
qed

section \<open>Properties of the Disperser\<close>

declare floydSteinbergDither_x_loop.simps [simp del] floydSteinbergDither_y_loop.simps [simp del]

lemma add_to_length [simp]: "length (add_to xs i v) = length xs"
  by (simp add: add_to_def)

lemma fs_diffuse_add_to:
  assumes "nat (ny * int width + nx) = i" and "i < length gray"
  shows "fs_diffuse width err gray ((nx, ny), k) = add_to gray i (js_div (js_mul err (Num k)) (Num 16))"
  using assms by (simp add: fs_diffuse_def add_to_def float_get_def Let_def del: js_div.simps js_mul.simps)

lemma neighbour_index:
  "nat (int y * int width + (int x + 1)) = y * width + x + 1"
  "1 \<le> x \<Longrightarrow> nat ((int y + 1) * int width + (int x - 1)) = y * width + x + width - 1"
  "nat ((int y + 1) * int width + int x) = y * width + x + width"
  "nat ((int y + 1) * int width + (int x + 1)) = y * width + x + width + 1"
proof -
  show "nat (int y * int width + (int x + 1)) = y * width + x + 1"
    by (simp add: nat_add_distrib nat_mult_distrib)
  show "nat ((int y + 1) * int width + int x) = y * width + x + width"
    by (simp add: nat_add_distrib nat_mult_distrib algebra_simps)
  show "nat ((int y + 1) * int width + (int x + 1)) = y * width + x + width + 1"
    by (simp add: nat_add_distrib nat_mult_distrib algebra_simps)
  assume "1 \<le> x"
  then have "(int y + 1) * int width + (int x - 1) = int (y * width + x + width - 1)"
    by (simp add: algebra_simps of_nat_diff)
  then show "nat ((int y + 1) * int width + (int x - 1)) = y * width + x + width - 1"
    by (simp only: nat_int)
qed

lemma neighbour_in_range:
  fixes x y width height :: nat
  assumes "x < width" and "y < height"
  shows "x + 1 < width \<Longrightarrow> y * width + x + 1 < width * height"
    and "1 \<le> x \<Longrightarrow> y + 1 < height \<Longrightarrow> y * width + x + width - 1 < width * height"
    and "y + 1 < height \<Longrightarrow> y * width + x + width < width * height"
    and "x + 1 < width \<Longrightarrow> y + 1 < height \<Longrightarrow> y * width + x + width + 1 < width * height"
proof -
  show "x + 1 < width \<Longrightarrow> y * width + x + 1 < width * height"
    using pixel_index_in_range [of y height "x + 1" width] assms by simp
  show "1 \<le> x \<Longrightarrow> y + 1 < height \<Longrightarrow> y * width + x + width - 1 < width * height"
    using pixel_index_in_range [of "y + 1" height "x - 1" width] assms by (simp add: algebra_simps)
  show "y + 1 < height \<Longrightarrow> y * width + x + width < width * height"
    using pixel_index_in_range [of "y + 1" height x width] assms by (simp add: algebra_simps)
  show "x + 1 < width \<Longrightarrow> y + 1 < height \<Longrightarrow> y * width + x + width + 1 < width * height"
    using pixel_index_in_range [of "y + 1" height "x + 1" width] assms by (simp add: algebra_simps)
qed

lemma fs_neighbours_eq:
  assumes "x < width" and "y < height"
  shows "fs_neighbours width height x y =
     (if x + 1 < width then [((int x + 1, int y), 7)] else []) @
     (if 1 \<le> x \<and> y + 1 < height then [((int x - 1, int y + 1), 3)] else []) @
     (if y + 1 < height then [((int x, int y + 1), 5)] else []) @
     (if x + 1 < width \<and> y + 1 < height then [((int x + 1, int y + 1), 1)] else [])"
  using assms by (auto simp add: fs_neighbours_def)

lemma floydSteinbergDither_pixel_visit:
  assumes x: "x < width" and y: "y < height" and len: "length gray = width * height"
  shows "floydSteinbergDither_pixel width height y x (gray, bw) = fs_visit width height (gray, bw) (x, y)"
proof -
  define idx where "idx = y * width + x"
  define oldVal where "oldVal = gray ! idx"
  define err where "err = js_sub oldVal (if js_lt oldVal (Num 128) then Num 0 else Num 255)"
  define w :: "rat \<Rightarrow> jsnum" where "w = (\<lambda>k. js_div (js_mul err (Num k)) (Num 16))"
  have idx: "idx < length gray"
    using pixel_index_in_range [OF y x] len by (simp add: idx_def)
  have old: "float_get gray idx = oldVal"
    using idx by (simp add: float_get_def oldVal_def)
  note r = neighbour_in_range [OF x y, folded idx_def]
  note n = neighbour_index [where y = y and width = width and x = x, folded idx_def]
  have d1: "\<And>g. x + 1 < width \<Longrightarrow> length g = length gray \<Longrightarrow>
      fs_diffuse width err g ((int x + 1, int y), 7) = add_to g (idx + 1) (w 7)"
    unfolding w_def using r(1) n(1) by (intro fs_diffuse_add_to) (simp_all add: len)
  have d2: "\<And>g. 1 \<le> x \<Longrightarrow> y + 1 < height \<Longrightarrow> length g = length gray \<Longrightarrow>
      fs_diffuse width err g ((int x - 1, int y + 1), 3) = add_to g (idx + width - 1) (w 3)"
    unfolding w_def using r(2) n(2) by (intro fs_diffuse_add_to) (simp_all add: len)
  have d3: "\<And>g. y + 1 < height \<Longrightarrow> length g = length gray \<Longrightarrow>
      fs_diffuse width err g ((int x, int y + 1), 5) = add_to g (idx + width) (w 5)"
    unfolding w_def using r(3) n(3) by (intro fs_diffuse_add_to) (simp_all add: len)
  have d4: "\<And>g. x + 1 < width \<Longrightarrow> y + 1 < height \<Longrightarrow> length g = length gray \<Longrightarrow>
      fs_diffuse width err g ((int x + 1, int y + 1), 1) = add_to g (idx + width + 1) (w 1)"
    unfolding w_def using r(4) n(4) by (intro fs_diffuse_add_to) (simp_all add: len)
  have lhs: "floydSteinbergDither_pixel width height y x (gray, bw) =
      (let g1 = (if x + 1 < width then add_to gray (idx + 1) (w 7) else gray);
           g2 = (if 1 \<le> x \<and> y + 1 < height then add_to g1 (idx + width - 1) (w 3) else g1);
           g3 = (if y + 1 < height then add_to g2 (idx + width) (w 5) else g2);
           g4 = (if x + 1 < width \<and> y + 1 < height then add_to g3 (idx + width + 1) (w 1) else g3)
       in (g4, bw[idx := (if js_lt oldVal (Num 128) then 1 else 0)]))"
    by (simp add: floydSteinbergDither_pixel_def Let_def idx_def [symmetric] old err_def w_def
        del: js_div.simps js_mul.simps)
  have rhs: "fs_visit width height (gray, bw) (x, y) =
      (foldl (fs_diffuse width err) gray (fs_neighbours width height x y),
       bw[idx := (if js_lt oldVal (Num 128) then 1 else 0)])"
    by (simp add: fs_visit_def Let_def idx_def [symmetric] oldVal_def [symmetric] err_def)
  have "foldl (fs_diffuse width err) gray (fs_neighbours width height x y) =
      (let g1 = (if x + 1 < width then add_to gray (idx + 1) (w 7) else gray);
           g2 = (if 1 \<le> x \<and> y + 1 < height then add_to g1 (idx + width - 1) (w 3) else g1);
           g3 = (if y + 1 < height then add_to g2 (idx + width) (w 5) else g2);
           g4 = (if x + 1 < width \<and> y + 1 < height then add_to g3 (idx + width + 1) (w 1) else g3)
       in g4)"
    by (simp add: fs_neighbours_eq [OF x y] Let_def d1 d2 d3 d4)
  with lhs rhs show ?thesis by (simp add: Let_def)
qed

lemma fs_diffuse_length [simp]: "length (fs_diffuse width err gray n) = length gray"
  by (simp add: fs_diffuse_def Let_def)

lemma foldl_fs_diffuse_length [simp]:
  "length (foldl (fs_diffuse width err) gray ns) = length gray"
  by (induction ns arbitrary: gray) simp_all

lemma fs_visit_length [simp]: "length (fst (fs_visit width height st c)) = length (fst st)"
  by (simp add: fs_visit_def Let_def)

lemma foldl_fs_visit_length [simp]:
  "length (fst (foldl (fs_visit width height) st cs)) = length (fst st)"
  by (induction cs arbitrary: st) simp_all

lemma x_loop_visit:
  assumes "y < height" and "length (fst st) = width * height"
  shows "floydSteinbergDither_x_loop width height y x st =
           foldl (fs_visit width height) st (map (\<lambda>x. (x, y)) [x..<width])"
  using assms(2)
proof (induction "width - x" arbitrary: x st)
  case 0
  then have "\<not> x < width" by simp
  then show ?case by (subst floydSteinbergDither_x_loop.simps) simp
next
  case (Suc n)
  then have x: "x < width" by simp
  have n: "n = width - (x + 1)" using Suc.hyps(2) by simp
  have p: "floydSteinbergDither_pixel width height y x st = fs_visit width height st (x, y)"
    using floydSteinbergDither_pixel_visit [OF x assms(1), of "fst st" "snd st"] Suc.prems by simp
  have l: "length (fst (fs_visit width height st (x, y))) = width * height"
    using Suc.prems by simp
  have "floydSteinbergDither_x_loop width height y x st =
          floydSteinbergDither_x_loop width height y (x + 1) (fs_visit width height st (x, y))"
    using x by (subst floydSteinbergDither_x_loop.simps) (simp add: p)
  also have "\<dots> = foldl (fs_visit width height) (fs_visit width height st (x, y))
                        (map (\<lambda>x. (x, y)) [x + 1..<width])"
    by (rule Suc.hyps(1) [OF n l])
  also have "\<dots> = foldl (fs_visit width height) st (map (\<lambda>x. (x, y)) [x..<width])"
    using x by (simp add: upt_conv_Cons)
  finally show ?case .
qed

lemma y_loop_visit:
  assumes "length (fst st) = width * height"
  shows "floydSteinbergDither_y_loop width height y st =
           foldl (fs_visit width height) st
             (concat (map (\<lambda>y. map (\<lambda>x. (x, y)) [0..<width]) [y..<height]))"
  using assms
proof (induction "height - y" arbitrary: y st)
  case 0
  then have "\<not> y < height" by simp
  then show ?case by (subst floydSteinbergDither_y_loop.simps) simp
next
  case (Suc n)
  then have y: "y < height" by simp
  have n: "n = height - (y + 1)" using Suc.hyps(2) by simp
  let ?row = "map (\<lambda>x. (x, y)) [0..<width]"
  have r: "floydSteinbergDither_x_loop width height y 0 st = foldl (fs_visit width height) st ?row"
    using y Suc.prems by (rule x_loop_visit)
  have l: "length (fst (foldl (fs_visit width height) st ?row)) = width * height"
    using Suc.prems by simp
  have "floydSteinbergDither_y_loop width height y st =
          floydSteinbergDither_y_loop width height (y + 1) (foldl (fs_visit width height) st ?row)"
    using y by (subst floydSteinbergDither_y_loop.simps) (simp add: r)
  also have "\<dots> = foldl (fs_visit width height) (foldl (fs_visit width height) st ?row)
                        (concat (map (\<lambda>y. map (\<lambda>x. (x, y)) [0..<width]) [y + 1..<height]))"
    by (rule Suc.hyps(1) [OF n l])
  also have "\<dots> = foldl (fs_visit width height) st
                        (concat (map (\<lambda>y. map (\<lambda>x. (x, y)) [0..<width]) [y..<height]))"
    using y by (simp add: upt_conv_Cons)
  finally show ?case .
qed

lemma floydSteinbergDither_pixel_bw:
  "snd (floydSteinbergDither_pixel width height y x st) =
     (snd st)[y * width + x := (if js_lt (float_get (fst st) (y * width + x)) (Num 128) then 1 else 0)]"
  by (simp add: floydSteinbergDither_pixel_def Let_def)

lemma pixel_two_valued:
  assumes "set (snd st) \<subseteq> {0, 1}"
  shows "set (snd (floydSteinbergDither_pixel width height y x st)) \<subseteq> {0, 1}
         \<and> length (snd (floydSteinbergDither_pixel width height y x st)) = length (snd st)"
proof -
  let ?v = "if js_lt (float_get (fst st) (y * width + x)) (Num 128) then 1 else 0 :: u8"
  have "set ((snd st)[y * width + x := ?v]) \<subseteq> insert ?v (set (snd st))"
    by (rule set_update_subset_insert)
  also have "\<dots> \<subseteq> {0, 1}" using assms by auto
  finally show ?thesis by (simp add: floydSteinbergDither_pixel_bw)
qed

lemma x_loop_two_valued:
  "set (snd st) \<subseteq> {0, 1} \<Longrightarrow>
   set (snd (floydSteinbergDither_x_loop width height y x st)) \<subseteq> {0, 1}
   \<and> length (snd (floydSteinbergDither_x_loop width height y x st)) = length (snd st)"
proof (induction "width - x" arbitrary: x st)
  case 0
  then have "\<not> x < width" by simp
  with 0 show ?case by (subst (1 2) floydSteinbergDither_x_loop.simps) simp
next
  case (Suc n)
  then have x: "x < width" by simp
  have n: "n = width - (x + 1)" using Suc.hyps(2) by simp
  have s: "floydSteinbergDither_x_loop width height y x st =
      floydSteinbergDither_x_loop width height y (x + 1) (floydSteinbergDither_pixel width height y x st)"
    using x by (subst floydSteinbergDither_x_loop.simps) simp
  from Suc.hyps(1) [OF n, of "floydSteinbergDither_pixel width height y x st"]
    pixel_two_valued [OF Suc.prems, of width height y x]
  show ?case by (simp only: s)
qed

lemma y_loop_two_valued:
  "set (snd st) \<subseteq> {0, 1} \<Longrightarrow>
   set (snd (floydSteinbergDither_y_loop width height y st)) \<subseteq> {0, 1}
   \<and> length (snd (floydSteinbergDither_y_loop width height y st)) = length (snd st)"
proof (induction "height - y" arbitrary: y st)
  case 0
  then have "\<not> y < height" by simp
  with 0 show ?case by (subst (1 2) floydSteinbergDither_y_loop.simps) simp
next
  case (Suc n)
  then have y: "y < height" by simp
  have n: "n = height - (y + 1)" using Suc.hyps(2) by simp
  have s: "floydSteinbergDither_y_loop width height y st =
      floydSteinbergDither_y_loop width height (y + 1) (floydSteinbergDither_x_loop width height y 0 st)"
    using y by (subst floydSteinbergDither_y_loop.simps) simp
  from Suc.hyps(1) [OF n, of "floydSteinbergDither_x_loop width height y 0 st"]
    x_loop_two_valued [OF Suc.prems, of width height y 0]
  show ?case by (simp only: s)
qed

text \<open>
  C2. For any input every entry of the output is 0 or 1, and there are \<open>width * height\<close>
  of them. For a grayscale buffer of \<open>width * height\<close> values (\<open>width\<close>, \<open>height\<close> at least
  1) the output is that of visiting the pixels in row-major order, where a visit emits 1
  when the current value is below 128 and 0 otherwise, takes the error \<open>value - 0\<close> or
  \<open>value - 255\<close>, and adds \<open>err * 7 / 16\<close> to the right neighbour, \<open>err * 3 / 16\<close> to the one
  below-left, \<open>err * 5 / 16\<close> to the one below and \<open>err * 1 / 16\<close> to the one below-right,
  skipping the neighbours outside the buffer.
\<close>

theorem floydSteinbergDither_refines:
  "set (floydSteinbergDither grayArray width height) \<subseteq> {0, 1} \<and>
   length (floydSteinbergDither grayArray width height) = width * height \<and>
   (1 \<le> width \<and> 1 \<le> height \<and> length grayArray = width * height \<longrightarrow>
      floydSteinbergDither grayArray width height = dither_spec grayArray width height)"
proof -
  let ?st = "(grayArray, replicate (width * height) (0 :: u8))"
  have "set (snd ?st) \<subseteq> {0, 1}" by auto
  from y_loop_two_valued [OF this, of width height 0]
  have 1: "set (floydSteinbergDither grayArray width height) \<subseteq> {0, 1}"
    and 2: "length (floydSteinbergDither grayArray width height) = width * height"
    by (simp_all add: floydSteinbergDither_def)
  have 3: "floydSteinbergDither grayArray width height = dither_spec grayArray width height"
    if "length grayArray = width * height"
    using y_loop_visit [of ?st width height 0] that
    by (simp add: floydSteinbergDither_def dither_spec_def row_major_def)
  from 1 2 3 show ?thesis by blast
qed

theorem floydSteinbergDither_refines_witness:
  "floydSteinbergDither [Num 100, Num 200, Num 50, Num 255] 2 2 = [1, 0, 1, 0] \<and>
   dither_spec [Num 100, Num 200, Num 50, Num 255] 2 2 = [1, 0, 1, 0]"
proof -
  have e: "floydSteinbergDither [Num 100, Num 200, Num 50, Num 255] 2 2 = [1, 0, 1, 0]"
    by code_simp
  have "(1::nat) \<le> 2 \<and> (1::nat) \<le> 2 \<and> length [Num 100, Num 200, Num 50, Num 255] = 2 * 2"
    by simp
  with floydSteinbergDither_refines [of "[Num 100, Num 200, Num 50, Num 255]" 2 2]
  have "floydSteinbergDither [Num 100, Num 200, Num 50, Num 255] 2 2
          = dither_spec [Num 100, Num 200, Num 50, Num 255] 2 2"
    by blast
  with e show ?thesis by simp
qed

end
